theory Spec2Isabelle
  imports Main "HOL-Library.Multiset"
begin

section \<open>Data model of the coalescing room\<close>

text \<open>
  The development embeds \<open>struct Room\<close> of the coalescing broadcaster and the two
  event-loop callbacks that drive it.

  A \<open>uWS::WebSocket\<close> is an external handle type. The room only uses its
  \<open>operator<\<close> (the order of the \<open>std::map\<close> and of \<open>std::sort\<close>) and the equality of
  \<open>getPollHandle()\<close>; both compare the address of the poll handle, so a socket is modelled
  by that address.

  The fields of \<open>Gap\<close>, the counter \<open>batched\<close> and the locals \<open>start\<close>, \<open>lastStop\<close>,
  \<open>i\<close> and \<open>j\<close> are C++ \<open>int\<close>s of 32 bits. They are kept as integers, and every
  conversion to \<open>int\<close>, every sum and difference of \<open>int\<close>s and every increment goes
  through the operations of the section on machine integers below, which wrap at 32 bits.
\<close>

type_synonym socket = nat

record Gap =
  start :: int
  length_gap :: int

record Room =
  uniqueSenders :: "(socket \<times> Gap list) list"
  sharedMessage :: string
  sockets :: "socket list"
  gotPubsThisIteration :: bool
  batched :: int

text \<open>
  \<open>uniqueSenders\<close> is a \<open>std::map\<close>: it is kept as the list of its entries in the
  order in which the map is iterated, that is sorted by key, every key once.
\<close>

datatype error =
    OutOfBounds    \<comment> \<open>\<open>second[0]\<close> of an empty vector of ranges (undefined behaviour)\<close>
  | OutOfRange     \<comment> \<open>\<open>std::out_of_range\<close> thrown by \<open>substr\<close>\<close>
  | NegativeIndex  \<comment> \<open>\<open>uniqueMessages[i]\<close> with a negative \<open>i\<close> (undefined behaviour)\<close>

datatype action =
    Send string          \<comment> \<open>\<open>socket.send(data, length, TEXT)\<close>\<close>
  | SendPrepared string  \<comment> \<open>\<open>socket.sendPrepared(preparedMessage)\<close>\<close>

definition defaultRoom :: Room where
  "defaultRoom = \<lparr>uniqueSenders = [], sharedMessage = [], sockets = [],
                  gotPubsThisIteration = False, batched = 0\<rparr>"

section \<open>Machine integers\<close>

text \<open>An \<open>int\<close> holds the integers from \<open>-2^31\<close> to \<open>2^31 - 1\<close>.\<close>

definition is_int :: "int \<Rightarrow> bool" where
  "is_int x \<longleftrightarrow> - (2 ^ 31) \<le> x \<and> x < 2 ^ 31"

text \<open>
  The \<open>int\<close> with the same low 32 bits as \<open>x\<close>: what the conversion of a \<open>size_t\<close> to
  \<open>int\<close> yields, and what a sum or difference that overflows leaves in two's complement.
\<close>

definition to_int :: "int \<Rightarrow> int" where
  "to_int x = (x + 2 ^ 31) mod 2 ^ 32 - 2 ^ 31"

text \<open>
  \<open>a + b\<close> and \<open>a - b\<close> on \<open>int\<close>s; \<open>i++\<close> is \<open>int_plus i 1\<close>. The language leaves
  the overflow of these operations undefined; the model takes the two's-complement result,
  which wraps. Every value that the room stores or computes is an \<open>int\<close>; on operands that
  are none, which no run reaches, the operations are left exact.
\<close>

definition int_plus :: "int \<Rightarrow> int \<Rightarrow> int" where
  "int_plus a b = (if is_int a \<and> is_int b then to_int (a + b) else a + b)"

definition int_minus :: "int \<Rightarrow> int \<Rightarrow> int" where
  "int_minus a b = (if is_int a \<and> is_int b then to_int (a - b) else a - b)"

section \<open>Strings\<close>

text \<open>
  \<open>std::string::substr(pos, len)\<close> throws when \<open>pos > size()\<close> and otherwise returns
  \<open>min len (size() - pos)\<close> characters from \<open>pos\<close> on. Both arguments are \<open>int\<close>s
  at the call sites; a negative one converts to a \<open>size_t\<close> above the size of any
  string, so a negative \<open>pos\<close> throws and a negative \<open>len\<close> takes the whole rest.
\<close>

definition substr :: "string \<Rightarrow> int \<Rightarrow> int \<Rightarrow> error + string" where
  "substr s pos len =
     (if pos < 0 \<or> int (length s) < pos then Inl OutOfRange
      else Inr (if len < 0 then drop (nat pos) s
                else take (nat len) (drop (nat pos) s)))"

text \<open>\<open>substr(pos)\<close>, with the default \<open>len = npos\<close>.\<close>

definition substr_from :: "string \<Rightarrow> int \<Rightarrow> error + string" where
  "substr_from s pos =
     (if pos < 0 \<or> int (length s) < pos then Inl OutOfRange
      else Inr (drop (nat pos) s))"

section \<open>The room's operations\<close>

subsection \<open>broadcast: the unique messages\<close>

text \<open>
  The inner loop of \<open>broadcast\<close>, \<open>for (int j = 1; j < second.size(); j++)\<close>: it runs
  through the gaps after the first, carrying \<open>lastStop\<close> and the message built so far. The
  list holds the gaps from index \<open>j\<close> on. The test compares \<open>j\<close> as a \<open>size_t\<close>: a
  negative \<open>j\<close> is above the size of any vector, so the loop ends when the gaps are
  exhausted or \<open>j\<close> has wrapped.
\<close>

fun gap_loop :: "string \<Rightarrow> Gap list \<Rightarrow> int \<Rightarrow> int \<Rightarrow> string \<Rightarrow> error + (string \<times> int)" where
  "gap_loop sm [] j lastStop msg = Inr (msg, lastStop)"
| "gap_loop sm (g # gs) j lastStop msg =
     (if j < 0 then Inr (msg, lastStop)
      else case substr sm lastStop (int_minus (start g) lastStop) of
             Inl e \<Rightarrow> Inl e
           | Inr piece \<Rightarrow>
               gap_loop sm gs (int_plus j 1) (int_plus (start g) (length_gap g)) (msg @ piece))"

text \<open>
  The body of the outer loop for one sender: \<open>second[0]\<close> is read without a check,
  which on an empty vector is out of bounds.
\<close>

definition uniqueMessage :: "string \<Rightarrow> Gap list \<Rightarrow> error + string" where
  "uniqueMessage sm gaps =
     (case gaps of
        [] \<Rightarrow> Inl OutOfBounds
      | g0 # rest \<Rightarrow>
          (case substr sm 0 (start g0) of
             Inl e \<Rightarrow> Inl e
           | Inr first \<Rightarrow>
               (case gap_loop sm rest 1 (int_plus (start g0) (length_gap g0)) first of
                  Inl e \<Rightarrow> Inl e
                | Inr (msg, lastStop) \<Rightarrow>
                    (case substr_from sm lastStop of
                       Inl e \<Rightarrow> Inl e
                     | Inr rest_of_message \<Rightarrow> Inr (msg @ rest_of_message)))))"

text \<open>
  The outer loop: one pair of poll handle and message per entry of the map, in key order,
  written to \<open>uniqueMessages[i]\<close>. The vector has the size of the map, so the write is
  within bounds unless \<open>i\<close> has wrapped.
\<close>

fun uniqueMessages :: "string \<Rightarrow> int \<Rightarrow> (socket \<times> Gap list) list \<Rightarrow> error + (socket \<times> string) list" where
  "uniqueMessages sm i [] = Inr []"
| "uniqueMessages sm i ((ws, gaps) # senders) =
     (if i < 0 then Inl NegativeIndex
      else case uniqueMessage sm gaps of
             Inl e \<Rightarrow> Inl e
           | Inr m \<Rightarrow>
               (case uniqueMessages sm (int_plus i 1) senders of
                  Inl e \<Rightarrow> Inl e
                | Inr ms \<Rightarrow> Inr ((ws, m) # ms)))"

subsection \<open>broadcast: the sends\<close>

text \<open>
  The second loop of \<open>broadcast\<close>: it walks the sockets with the index \<open>j\<close> into the
  unique messages; \<open>j\<close> advances only when the socket at hand is the sender at \<open>j\<close>.
  The test \<open>j < uniqueMessages.size()\<close> compares \<open>j\<close> as a \<open>size_t\<close>, so it fails for a
  negative \<open>j\<close>. The result lists the sends in the order in which they are made.
\<close>

fun send_loop :: "(socket \<times> string) list \<Rightarrow> string \<Rightarrow> int \<Rightarrow> socket list \<Rightarrow> (socket \<times> action) list" where
  "send_loop ums prepared j [] = []"
| "send_loop ums prepared j (socket # rest) =
     (if 0 \<le> j \<and> nat j < length ums \<and> fst (ums ! nat j) = socket
      then (if snd (ums ! nat j) \<noteq> [] then [(socket, Send (snd (ums ! nat j)))] else [])
             @ send_loop ums prepared (int_plus j 1) rest
      else (socket, SendPrepared prepared) # send_loop ums prepared j rest)"

definition broadcast :: "Room \<Rightarrow> error + ((socket \<times> action) list \<times> Room)" where
  "broadcast r =
     (case uniqueMessages (sharedMessage r) 0 (uniqueSenders r) of
        Inl e \<Rightarrow> Inl e
      | Inr ums \<Rightarrow>
          Inr (send_loop ums (sharedMessage r) 0 (sockets r),
               r\<lparr>batched := 0, uniqueSenders := [], sharedMessage := []\<rparr>))"

subsection \<open>publish and addSubscriber\<close>

text \<open>
  \<open>uniqueSenders[sender].push_back(gap)\<close>: \<open>operator[]\<close> finds the entry of the key or
  inserts an empty vector at the key's place in the order, then the gap is pushed.
\<close>

fun push_back_at :: "(socket \<times> Gap list) list \<Rightarrow> socket \<Rightarrow> Gap \<Rightarrow> (socket \<times> Gap list) list" where
  "push_back_at [] sender gap = [(sender, [] @ [gap])]"
| "push_back_at ((ws, gaps) # m) sender gap =
     (if sender < ws then (sender, [] @ [gap]) # (ws, gaps) # m
      else if sender = ws then (ws, gaps @ [gap]) # m
      else (ws, gaps) # push_back_at m sender gap)"

definition publish :: "Room \<Rightarrow> socket \<Rightarrow> string \<Rightarrow> Room" where
  "publish r sender message =
     (let start = to_int (int (length (sharedMessage r))) in
      r\<lparr>sharedMessage := sharedMessage r @ message,
        uniqueSenders := push_back_at (uniqueSenders r) sender
                           \<lparr>start = start, length_gap = to_int (int (length message))\<rparr>,
        gotPubsThisIteration := True,
        batched := int_plus (batched r) 1\<rparr>)"

text \<open>\<open>push_back\<close> followed by \<open>std::sort\<close> with \<open>a < b\<close>.\<close>

definition addSubscriber :: "Room \<Rightarrow> socket \<Rightarrow> Room" where
  "addSubscriber r ws = r\<lparr>sockets := sort (sockets r @ [ws])\<rparr>"

subsection \<open>The callbacks of the event loop\<close>

text \<open>
  The prepare callback runs before the loop blocks: in a batch it arms the wake-up
  timer (which has no effect on the room) and clears the flag of the iteration.
\<close>

definition prepare_callback :: "Room \<Rightarrow> Room" where
  "prepare_callback r =
     (if batched r \<noteq> 0 then r\<lparr>gotPubsThisIteration := False\<rparr> else r)"

text \<open>The check callback runs after all polls of the iteration have been handled.\<close>

definition check_callback :: "Room \<Rightarrow> error + ((socket \<times> action) list \<times> Room)" where
  "check_callback r =
     (if batched r \<noteq> 0 \<and> \<not> gotPubsThisIteration r then broadcast r else Inr ([], r))"

subsection \<open>Runs\<close>

datatype event =
    AddSubscriber socket
  | Publish socket string
  | Broadcast
  | PrepareCallback
  | CheckCallback

fun step :: "Room \<Rightarrow> event \<Rightarrow> error + ((socket \<times> action) list \<times> Room)" where
  "step r (AddSubscriber ws) = Inr ([], addSubscriber r ws)"
| "step r (Publish sender message) = Inr ([], publish r sender message)"
| "step r Broadcast = broadcast r"
| "step r PrepareCallback = Inr ([], prepare_callback r)"
| "step r CheckCallback = check_callback r"

text \<open>A run collects the sends of its steps in order and stops at the first error.\<close>

fun run :: "Room \<Rightarrow> event list \<Rightarrow> error + ((socket \<times> action) list \<times> Room)" where
  "run r [] = Inr ([], r)"
| "run r (ev # evs) =
     (case step r ev of
        Inl e \<Rightarrow> Inl e
      | Inr (sends, r') \<Rightarrow>
          (case run r' evs of
             Inl e \<Rightarrow> Inl e
           | Inr (sends', r'') \<Rightarrow> Inr (sends @ sends', r'')))"

section \<open>Notions of the specification\<close>

subsection \<open>Ranges and the complement of a buffer\<close>

text \<open>The gap \<open>g\<close> denotes the half-open interval from \<open>start\<close> to \<open>start + length\<close>.\<close>

definition in_gap :: "Gap \<Rightarrow> nat \<Rightarrow> bool" where
  "in_gap g i \<longleftrightarrow> start g \<le> int i \<and> int i < start g + length_gap g"

text \<open>The buffer with every range of \<open>R\<close> removed: the bytes at the positions outside all ranges.\<close>

definition without_gaps :: "string \<Rightarrow> Gap list \<Rightarrow> string" where
  "without_gaps buf R = nths buf {i. \<forall>g\<in>set R. \<not> in_gap g i}"

text \<open>The bytes of the half-open interval from \<open>a\<close> to \<open>b\<close>.\<close>

definition segment :: "string \<Rightarrow> int \<Rightarrow> int \<Rightarrow> string" where
  "segment buf a b = take (nat (b - a)) (drop (nat a) buf)"

text \<open>
  The complement as the specification spells it out: the segment before the first
  range, the segments between consecutive ranges, the segment after the last range.
\<close>

definition complement_segments :: "string \<Rightarrow> Gap list \<Rightarrow> string" where
  "complement_segments buf R =
     segment buf 0 (start (R ! 0))
     @ concat (map (\<lambda>i. segment buf (start (R ! i) + length_gap (R ! i)) (start (R ! Suc i)))
                 [0..<length R - 1])
     @ segment buf (start (last R) + length_gap (last R)) (int (length buf))"

text \<open>The same segments by recursion over the ranges, from the position \<open>lo\<close> on.\<close>

fun tail_segments :: "string \<Rightarrow> int \<Rightarrow> Gap list \<Rightarrow> string" where
  "tail_segments buf lo [] = segment buf lo (int (length buf))"
| "tail_segments buf lo (g # gs) =
     segment buf lo (start g) @ tail_segments buf (start g + length_gap g) gs"

definition covers :: "Gap list \<Rightarrow> string \<Rightarrow> bool" where
  "covers R buf \<longleftrightarrow> (\<forall>i<length buf. \<exists>g\<in>set R. in_gap g i)"

text \<open>
  Ranges in append order between \<open>lo\<close> and \<open>hi\<close>: each begins at or after the end
  of the one before, none has a negative length, and the last ends at or before \<open>hi\<close>.
\<close>

fun gaps_ok :: "int \<Rightarrow> Gap list \<Rightarrow> int \<Rightarrow> bool" where
  "gaps_ok lo [] hi = (lo \<le> hi)"
| "gaps_ok lo (g # gs) hi =
     (lo \<le> start g \<and> 0 \<le> length_gap g \<and> gaps_ok (start g + length_gap g) gs hi)"

text \<open>Two ranges overlap when some position lies in both.\<close>

definition overlap :: "Gap \<Rightarrow> Gap \<Rightarrow> bool" where
  "overlap g h \<longleftrightarrow> (\<exists>i. in_gap g i \<and> in_gap h i)"

definition in_bounds :: "string \<Rightarrow> Gap \<Rightarrow> bool" where
  "in_bounds buf g \<longleftrightarrow>
     0 \<le> start g \<and> 0 \<le> length_gap g \<and> start g + length_gap g \<le> int (length buf)"

text \<open>No two ranges of the list overlap.\<close>

definition disjoint_ranges :: "Gap list \<Rightarrow> bool" where
  "disjoint_ranges R \<longleftrightarrow> (\<forall>j<length R. \<forall>i<j. \<not> overlap (R ! i) (R ! j))"

text \<open>
  The range lists of a room, with the starts strictly increasing: every list is sorted
  strictly by start, its ranges are pairwise disjoint and lie within the shared message.
\<close>

definition ranges_strictly_sorted :: "Room \<Rightarrow> bool" where
  "ranges_strictly_sorted r \<longleftrightarrow>
     (\<forall>(s, R) \<in> set (uniqueSenders r).
        sorted_wrt (<) (map start R) \<and> disjoint_ranges R \<and>
        (\<forall>g\<in>set R. in_bounds (sharedMessage r) g))"

text \<open>
  The same with the starts weakly increasing: every range begins at or after the end of
  the ranges before it, and the starts increase strictly when no range is empty.
\<close>

definition ranges_sorted :: "Room \<Rightarrow> bool" where
  "ranges_sorted r \<longleftrightarrow>
     (\<forall>(s, R) \<in> set (uniqueSenders r).
        sorted (map start R) \<and>
        sorted_wrt (\<lambda>g h. start g + length_gap g \<le> start h) R \<and>
        ((\<forall>g\<in>set R. 0 < length_gap g) \<longrightarrow> sorted_wrt (<) (map start R)) \<and>
        disjoint_ranges R \<and>
        (\<forall>g\<in>set R. in_bounds (sharedMessage r) g))"

definition gap_lists_non_empty :: "Room \<Rightarrow> bool" where
  "gap_lists_non_empty r \<longleftrightarrow> (\<forall>(s, R) \<in> set (uniqueSenders r). R \<noteq> [])"

subsection \<open>Windows\<close>

text \<open>Within a window the room is only subscribed to and published to.\<close>

fun window_event :: "event \<Rightarrow> bool" where
  "window_event (AddSubscriber ws) = True"
| "window_event (Publish sender message) = True"
| "window_event Broadcast = False"
| "window_event PrepareCallback = False"
| "window_event CheckCallback = False"

definition window :: "event list \<Rightarrow> bool" where
  "window evs \<longleftrightarrow> list_all window_event evs"

text \<open>A window starts in a room that holds no publication: initially and after a broadcast.\<close>

definition window_start :: "Room \<Rightarrow> bool" where
  "window_start r \<longleftrightarrow> uniqueSenders r = [] \<and> sharedMessage r = []"

text \<open>The published payloads of a window, concatenated in publish order.\<close>

fun payloads :: "event list \<Rightarrow> string" where
  "payloads [] = []"
| "payloads (Publish sender message # evs) = message @ payloads evs"
| "payloads (ev # evs) = payloads evs"

text \<open>The number of publications of a run.\<close>

fun publications :: "event list \<Rightarrow> nat" where
  "publications [] = 0"
| "publications (Publish sender message # evs) = Suc (publications evs)"
| "publications (ev # evs) = publications evs"

fun senders :: "event list \<Rightarrow> socket set" where
  "senders [] = {}"
| "senders (Publish sender message # evs) = insert sender (senders evs)"
| "senders (ev # evs) = senders evs"

text \<open>
  The ranges that the payloads of \<open>s\<close> occupy in the concatenation of a window's
  payloads, the window's first payload lying at \<open>off\<close>.
\<close>

fun published_ranges :: "socket \<Rightarrow> nat \<Rightarrow> event list \<Rightarrow> Gap list" where
  "published_ranges s off [] = []"
| "published_ranges s off (Publish sender message # evs) =
     (if sender = s then [\<lparr>start = int off, length_gap = int (length message)\<rparr>] else [])
       @ published_ranges s (off + length message) evs"
| "published_ranges s off (ev # evs) = published_ranges s off evs"

text \<open>The entry of a sender in the map after further ranges have been pushed.\<close>

definition extend_ranges :: "Gap list option \<Rightarrow> Gap list \<Rightarrow> Gap list option" where
  "extend_ranges old new =
     (case old of None \<Rightarrow> if new = [] then None else Some new | Some R \<Rightarrow> Some (R @ new))"

subsection \<open>Invariants of the room\<close>

text \<open>The number of publications that the room holds: the ranges in \<open>uniqueSenders\<close>.\<close>

definition pending :: "Room \<Rightarrow> nat" where
  "pending r = sum_list (map (\<lambda>(s, R). length R) (uniqueSenders r))"

text \<open>
  The map is sorted by key and holds no empty list of ranges; and while the shared
  message is shorter than \<open>2^31\<close> bytes, so that its length is an \<open>int\<close>, the ranges of every
  sender are in append order within it.
\<close>

definition gaps_inv :: "Room \<Rightarrow> bool" where
  "gaps_inv r \<longleftrightarrow>
     sorted_wrt (<) (map fst (uniqueSenders r)) \<and>
     (\<forall>(s, R) \<in> set (uniqueSenders r). R \<noteq> []) \<and>
     (length (sharedMessage r) < 2 ^ 31 \<longrightarrow>
        (\<forall>(s, R) \<in> set (uniqueSenders r). gaps_ok 0 R (int (length (sharedMessage r)))))"

text \<open>The counter holds the low 32 bits of the number of publications.\<close>

definition room_inv :: "Room \<Rightarrow> bool" where
  "room_inv r \<longleftrightarrow>
     gaps_inv r \<and> sorted (sockets r) \<and>
     batched r = to_int (int (pending r)) \<and>
     (uniqueSenders r = [] \<longrightarrow> sharedMessage r = [])"

subsection \<open>Sends\<close>

text \<open>The second loop of \<open>broadcast\<close> with a natural number for the index \<open>j\<close>.\<close>

fun merge_loop :: "(socket \<times> string) list \<Rightarrow> string \<Rightarrow> nat \<Rightarrow> socket list \<Rightarrow> (socket \<times> action) list" where
  "merge_loop ums prepared j [] = []"
| "merge_loop ums prepared j (socket # rest) =
     (if j < length ums \<and> fst (ums ! j) = socket
      then (if snd (ums ! j) \<noteq> [] then [(socket, Send (snd (ums ! j)))] else [])
             @ merge_loop ums prepared (Suc j) rest
      else (socket, SendPrepared prepared) # merge_loop ums prepared j rest)"

fun payload :: "action \<Rightarrow> string" where
  "payload (Send m) = m"
| "payload (SendPrepared m) = m"

text \<open>
  What the merge of the second loop sends to the socket \<open>s\<close> when \<open>M\<close> is the set of
  senders that the index \<open>j\<close> reaches.
\<close>

definition unique_or_prepared :: "(socket \<times> string) list \<Rightarrow> string \<Rightarrow> socket set \<Rightarrow> socket \<Rightarrow> (socket \<times> action) list" where
  "unique_or_prepared ums prepared M s =
     (if s \<in> M
      then (case map_of ums s of
              None \<Rightarrow> []
            | Some m \<Rightarrow> if m \<noteq> [] then [(s, Send m)] else [])
      else [(s, SendPrepared prepared)])"

text \<open>
  What a subscriber is due: the shared message verbatim when it published nothing,
  otherwise the shared message without its own ranges, and no send when that is empty.
\<close>

definition due :: "Room \<Rightarrow> socket \<Rightarrow> (socket \<times> action) list" where
  "due r s =
     (case map_of (uniqueSenders r) s of
        None \<Rightarrow> [(s, SendPrepared (sharedMessage r))]
      | Some R \<Rightarrow>
          if without_gaps (sharedMessage r) R = [] then []
          else [(s, Send (without_gaps (sharedMessage r) R))])"

text \<open>The senders that the merge reaches: those before the first sender that is no socket.\<close>

definition reached :: "Room \<Rightarrow> socket set" where
  "reached r = set (takeWhile (\<lambda>k. k \<in> set (sockets r)) (map fst (uniqueSenders r)))"

text \<open>
  A message holds no byte of the ranges \<open>R\<close> of the buffer when it consists of the bytes
  at some positions of the buffer, in order, none of them in a range of \<open>R\<close>.
\<close>

definition self_echo_free :: "string \<Rightarrow> Gap list \<Rightarrow> string \<Rightarrow> bool" where
  "self_echo_free buf R m \<longleftrightarrow> (\<exists>I. m = nths buf I \<and> (\<forall>i\<in>I. \<forall>g\<in>set R. \<not> in_gap g i))"

text \<open>
  No self-echo for the window \<open>evs\<close> begun in the room \<open>r0\<close>: no send of the broadcast
  that ends the window holds a byte of a range that its recipient published.
\<close>

definition no_self_echo :: "Room \<Rightarrow> event list \<Rightarrow> bool" where
  "no_self_echo r0 evs \<longleftrightarrow>
     (\<forall>sends r plan r' s a.
        run r0 evs = Inr (sends, r) \<and> broadcast r = Inr (plan, r') \<and> (s, a) \<in> set plan \<longrightarrow>
        self_echo_free (sharedMessage r) (published_ranges s 0 evs) (payload a))"

text \<open>
  Senders that are no subscribers do no harm in the room \<open>r\<close>: the broadcast sends
  nothing to a socket that is no subscriber, and to every subscriber what it is due.
\<close>

definition absent_sender_harmless :: "Room \<Rightarrow> bool" where
  "absent_sender_harmless r \<longleftrightarrow>
     (\<forall>plan r'. broadcast r = Inr (plan, r') \<longrightarrow>
        (\<forall>k. k \<notin> set (sockets r) \<longrightarrow> k \<notin> fst ` set plan) \<and>
        (\<forall>s\<in>set (sockets r). filter (\<lambda>x. fst x = s) plan = due r s))"

subsection \<open>Properties of a window and of a pass\<close>

text \<open>
  The exclusion is correct for the window \<open>evs\<close> begun in the room \<open>r0\<close>: the message
  that the first loop of \<open>broadcast\<close> builds for a sender is the shared message without
  the ranges recorded for that sender.
\<close>

definition exclusion_correct :: "Room \<Rightarrow> event list \<Rightarrow> bool" where
  "exclusion_correct r0 evs \<longleftrightarrow>
     (\<forall>sends r ums s R.
        run r0 evs = Inr (sends, r) \<and>
        uniqueMessages (sharedMessage r) 0 (uniqueSenders r) = Inr ums \<and>
        (s, R) \<in> set (uniqueSenders r) \<longrightarrow>
        map_of ums s = Some (without_gaps (sharedMessage r) R))"

text \<open>
  A quiet pass closes the window of the room \<open>r\<close>: when the room holds publications, a
  pass of the two callbacks with no publication in between broadcasts and leaves the room
  without publications.
\<close>

definition quiet_pass_closes :: "Room \<Rightarrow> bool" where
  "quiet_pass_closes r \<longleftrightarrow>
     (uniqueSenders r \<noteq> [] \<longrightarrow>
        (\<exists>plan r'. run r [PrepareCallback, CheckCallback] = Inr (plan, r') \<and>
           uniqueSenders r' = []))"

text \<open>The counter and the fields of every range of the room are in the range of an \<open>int\<close>.\<close>

definition fields_are_ints :: "Room \<Rightarrow> bool" where
  "fields_are_ints r \<longleftrightarrow>
     is_int (batched r) \<and>
     (\<forall>(s, R) \<in> set (uniqueSenders r). \<forall>g\<in>set R. is_int (start g) \<and> is_int (length_gap g))"


section \<open>Lemmas\<close>

subsection \<open>Machine integers\<close>

lemma is_int_to_int: "is_int (to_int x)"
proof -
  have "0 \<le> (x + 2 ^ 31) mod 2 ^ 32" "(x + 2 ^ 31) mod 2 ^ 32 < (2 ^ 32 :: int)"
    by simp_all
  then show ?thesis by (simp add: is_int_def to_int_def)
qed

lemma to_int_id: "is_int x \<Longrightarrow> to_int x = x"
  by (simp add: is_int_def to_int_def)

lemma to_int_nat: "n < 2 ^ 31 \<Longrightarrow> to_int (int n) = int n"
  by (rule to_int_id) (simp add: is_int_def)

lemma to_int_plus_left: "to_int (to_int x + y) = to_int (x + y)"
proof -
  have "(to_int x + y + 2 ^ 31) mod 2 ^ 32 = ((x + 2 ^ 31) mod 2 ^ 32 + y) mod 2 ^ 32"
    by (simp add: to_int_def algebra_simps)
  also have "\<dots> = (x + 2 ^ 31 + y) mod 2 ^ 32" by (rule mod_add_left_eq)
  finally show ?thesis by (simp add: to_int_def algebra_simps)
qed

lemma is_int_1: "is_int 1"
  by (simp add: is_int_def)

lemma int_plus_to_int: "int_plus (to_int x) 1 = to_int (x + 1)"
  by (simp add: int_plus_def is_int_to_int is_int_1 to_int_plus_left)

lemma is_int_between: "0 \<le> x \<Longrightarrow> x \<le> hi \<Longrightarrow> hi < 2 ^ 31 \<Longrightarrow> is_int x"
  by (simp add: is_int_def)

lemma int_plus_exact:
  "is_int a \<Longrightarrow> is_int b \<Longrightarrow> is_int (a + b) \<Longrightarrow> int_plus a b = a + b"
  by (simp add: int_plus_def to_int_id)

lemma int_minus_exact:
  "is_int a \<Longrightarrow> is_int b \<Longrightarrow> is_int (a - b) \<Longrightarrow> int_minus a b = a - b"
  by (simp add: int_minus_def to_int_id)

subsection \<open>The map of senders\<close>

lemma keys_push_back_at:
  "set (map fst (push_back_at m k g)) = insert k (set (map fst m))"
  by (induction m k g rule: push_back_at.induct) auto

lemma sorted_push_back_at:
  "sorted_wrt (<) (map fst m) \<Longrightarrow> sorted_wrt (<) (map fst (push_back_at m k g))"
proof (induction m k g rule: push_back_at.induct)
  case (1 sender gap)
  then show ?case by simp
next
  case (2 ws gaps m sender gap)
  then show ?case
    using keys_push_back_at [of m sender gap] by (auto simp del: set_map)
qed

lemma map_of_push_back_at:
  "sorted_wrt (<) (map fst m) \<Longrightarrow>
   map_of (push_back_at m k g) =
     (map_of m)(k \<mapsto> (case map_of m k of None \<Rightarrow> [] | Some gs \<Rightarrow> gs) @ [g])"
proof (induction m k g rule: push_back_at.induct)
  case (1 sender gap)
  then show ?case by simp
next
  case (2 ws gaps m sender gap)
  have "map_of m sender = None" if "sender < ws"
  proof -
    from 2(2) that have "sender \<notin> fst ` set m" by auto
    then show ?thesis by (simp add: map_of_eq_None_iff)
  qed
  with 2 show ?case by (auto simp: fun_eq_iff)
qed

lemma entries_push_back_at:
  "(s, R) \<in> set (push_back_at m k g) \<Longrightarrow>
     (s, R) \<in> set m \<or> (s = k \<and> (R = [g] \<or> (\<exists>R'. (k, R') \<in> set m \<and> R = R' @ [g])))"
  by (induction m k g rule: push_back_at.induct) (auto split: if_splits)

subsection \<open>Ranges in append order\<close>

lemma gaps_ok_le: "gaps_ok lo R hi \<Longrightarrow> lo \<le> hi"
proof (induction R arbitrary: lo)
  case Nil
  then show ?case by simp
next
  case (Cons g gs)
  from Cons.prems have "start g + length_gap g \<le> hi" using Cons.IH by simp
  with Cons.prems show ?case by simp
qed

lemma gaps_ok_mono: "gaps_ok lo R hi \<Longrightarrow> hi \<le> hi' \<Longrightarrow> gaps_ok lo R hi'"
  by (induction R arbitrary: lo) auto

lemma gaps_ok_snoc:
  "gaps_ok lo R hi \<Longrightarrow> 0 \<le> n \<Longrightarrow> gaps_ok lo (R @ [\<lparr>start = hi, length_gap = n\<rparr>]) (hi + n)"
  by (induction R arbitrary: lo) auto


subsection \<open>Selecting positions of a list\<close>

lemma nths_cong_index:
  "(\<And>i. i < length xs \<Longrightarrow> i \<in> A \<longleftrightarrow> i \<in> B) \<Longrightarrow> nths xs A = nths xs B"
  unfolding nths_def
  by (rule arg_cong [where f = "map fst"], rule filter_cong) (auto simp: in_set_zip)

lemma nths_none: "(\<And>i. i < length xs \<Longrightarrow> i \<notin> A) \<Longrightarrow> nths xs A = []"
  using nths_cong_index [of xs A "{}"] by simp

lemma nths_eq_Nil_iff: "nths xs A = [] \<longleftrightarrow> (\<forall>i<length xs. i \<notin> A)"
proof
  assume "nths xs A = []"
  then have "set (nths xs A) = {}" by simp
  then show "\<forall>i<length xs. i \<notin> A" unfolding set_nths by blast
next
  assume "\<forall>i<length xs. i \<notin> A"
  then show "nths xs A = []" by (simp add: nths_none)
qed

subsection \<open>The unique message of one sender\<close>

lemma gap_loop_segments:
  "gaps_ok lo gs (int (length sm)) \<Longrightarrow> 0 \<le> lo \<Longrightarrow> length sm < 2 ^ 31 \<Longrightarrow>
   gs = [] \<or> (0 \<le> j \<and> j + int (length gs) \<le> 2 ^ 31) \<Longrightarrow>
   \<exists>X stop. gap_loop sm gs j lo msg = Inr (msg @ X, stop) \<and> 0 \<le> stop \<and> stop \<le> int (length sm)
      \<and> X @ drop (nat stop) sm = tail_segments sm lo gs"
proof (induction gs arbitrary: j lo msg)
  case Nil
  then show ?case by (simp add: segment_def)
next
  case (Cons g gs)
  from Cons.prems have g: "lo \<le> start g" "0 \<le> length_gap g"
    and rest: "gaps_ok (start g + length_gap g) gs (int (length sm))" by simp_all
  from Cons.prems(3) have hi: "int (length sm) < 2 ^ 31" by simp
  from Cons.prems(4) have j: "0 \<le> j" "j + 1 + int (length gs) \<le> 2 ^ 31" by simp_all
  have next_j: "gs = [] \<or> (0 \<le> int_plus j 1 \<and> int_plus j 1 + int (length gs) \<le> 2 ^ 31)"
  proof (cases gs)
    case Nil
    then show ?thesis by simp
  next
    case (Cons g' gs')
    with j have "j + 1 < 2 ^ 31" by simp
    with j(1) have "int_plus j 1 = j + 1"
      by (intro int_plus_exact) (simp_all add: is_int_def)
    with j show ?thesis by simp
  qed
  from gaps_ok_le [OF rest] g have le: "start g \<le> int (length sm)"
    and le2: "start g + length_gap g \<le> int (length sm)" by simp_all
  from Cons.prems(2) g have nn: "0 \<le> start g" "0 \<le> start g + length_gap g"
    "0 \<le> start g - lo" by simp_all
  from g le2 nn have le3: "length_gap g \<le> int (length sm)" "lo \<le> int (length sm)"
    "start g - lo \<le> int (length sm)" using Cons.prems(2) by simp_all
  have plus: "int_plus (start g) (length_gap g) = start g + length_gap g"
    by (rule int_plus_exact)
       (rule is_int_between [OF _ _ hi], (rule nn g le le2 le3)+)+
  have minus: "int_minus (start g) lo = start g - lo"
    by (rule int_minus_exact)
       (rule is_int_between [OF _ _ hi], (rule nn g le le2 le3 Cons.prems(2))+)+
  have sub: "substr sm lo (start g - lo) = Inr (segment sm lo (start g))"
    using Cons.prems(2) g le by (simp add: substr_def segment_def)
  from Cons.IH [OF rest nn(2) Cons.prems(3) next_j, of "msg @ segment sm lo (start g)"]
  obtain X stop where
    "gap_loop sm gs (int_plus j 1) (start g + length_gap g) (msg @ segment sm lo (start g)) =
       Inr ((msg @ segment sm lo (start g)) @ X, stop)"
    "0 \<le> stop" "stop \<le> int (length sm)"
    "X @ drop (nat stop) sm = tail_segments sm (start g + length_gap g) gs"
    by auto
  then show ?case using sub j(1)
    by (intro exI [of _ "segment sm lo (start g) @ X"] exI [of _ stop])
       (simp add: plus minus)
qed

lemma uniqueMessage_segments:
  assumes "gaps_ok 0 R (int (length sm))" and "R \<noteq> []" and bound: "length sm < 2 ^ 31"
    and count: "length R \<le> 2 ^ 31"
  shows "uniqueMessage sm R = Inr (tail_segments sm 0 R)"
proof -
  from assms(2) obtain g0 rest where R: "R = g0 # rest" by (cases R) auto
  with assms(1) have g: "0 \<le> start g0" "0 \<le> length_gap g0"
    and rest: "gaps_ok (start g0 + length_gap g0) rest (int (length sm))" by simp_all
  from bound have hi: "int (length sm) < 2 ^ 31" by simp
  from gaps_ok_le [OF rest] g have le: "start g0 \<le> int (length sm)"
    and le2: "start g0 + length_gap g0 \<le> int (length sm)" by simp_all
  from g le2 have le3: "length_gap g0 \<le> int (length sm)"
    and nn: "0 \<le> start g0 + length_gap g0" by simp_all
  have plus: "int_plus (start g0) (length_gap g0) = start g0 + length_gap g0"
    by (rule int_plus_exact)
       (rule is_int_between [OF _ _ hi], (rule nn g le le2 le3)+)+
  have first: "substr sm 0 (start g0) = Inr (segment sm 0 (start g0))"
    using g by (simp add: substr_def segment_def)
  from count R have "rest = [] \<or> (0 \<le> (1 :: int) \<and> 1 + int (length rest) \<le> 2 ^ 31)"
    by simp
  from gap_loop_segments [OF rest nn bound this, of "segment sm 0 (start g0)"]
  obtain X stop where loop:
    "gap_loop sm rest 1 (start g0 + length_gap g0) (segment sm 0 (start g0)) =
       Inr (segment sm 0 (start g0) @ X, stop)"
    and stop: "0 \<le> stop" "stop \<le> int (length sm)"
    and X: "X @ drop (nat stop) sm = tail_segments sm (start g0 + length_gap g0) rest"
    by auto
  have last: "substr_from sm stop = Inr (drop (nat stop) sm)"
    using stop by (simp add: substr_from_def)
  show ?thesis
    unfolding uniqueMessage_def R using first loop last X by (simp add: plus)
qed

text \<open>At \<open>j = 2^31 - 1\<close> the inner loop handles one more range; then \<open>j\<close> wraps and it ends.\<close>

lemma gap_loop_ends_when_j_wraps:
  "gap_loop ''ab'' [\<lparr>start = 0, length_gap = 1\<rparr>, \<lparr>start = 1, length_gap = 1\<rparr>] 2147483647 0 [] =
     Inr ([], 1)"
  by (simp add: substr_def int_plus_def int_minus_def is_int_def to_int_def)

lemma gaps_ok_member:
  "gaps_ok lo gs hi \<Longrightarrow> h \<in> set gs \<Longrightarrow>
     lo \<le> start h \<and> 0 \<le> length_gap h \<and> start h + length_gap h \<le> hi"
proof (induction gs arbitrary: lo)
  case Nil
  then show ?case by simp
next
  case (Cons g gs)
  from Cons.prems(1) have g: "lo \<le> start g" "0 \<le> length_gap g"
    and rest: "gaps_ok (start g + length_gap g) gs hi" by simp_all
  show ?case
  proof (cases "h = g")
    case True
    with g gaps_ok_le [OF rest] show ?thesis by simp
  next
    case False
    with Cons.prems(2) have "h \<in> set gs" by simp
    from Cons.IH [OF rest this] g show ?thesis by simp
  qed
qed

lemma tail_segments_nths:
  "gaps_ok lo R (int (length sm)) \<Longrightarrow> 0 \<le> lo \<Longrightarrow>
   tail_segments sm lo R = nths (drop (nat lo) sm) {j. \<forall>g\<in>set R. \<not> in_gap g (j + nat lo)}"
proof (induction R arbitrary: lo)
  case Nil
  then show ?case by (simp add: segment_def nths_all)
next
  case (Cons g gs)
  from Cons.prems have g: "lo \<le> start g" "0 \<le> length_gap g"
    and rest: "gaps_ok (start g + length_gap g) gs (int (length sm))" by simp_all
  from gaps_ok_le [OF rest] have e_le: "start g + length_gap g \<le> int (length sm)" .
  define a s e where "a = nat lo" and "s = nat (start g)" and "e = nat (start g + length_gap g)"
  have ase: "a \<le> s" "s \<le> e" "e \<le> length sm"
    using g e_le Cons.prems(2) by (simp_all add: a_def s_def e_def)
  have ints: "int a = lo" "int s = start g" "int e = start g + length_gap g"
    using g Cons.prems(2) by (simp_all add: a_def s_def e_def)
  let ?S = "{j. \<forall>h\<in>set (g # gs). \<not> in_gap h (j + a)}"
  let ?p1 = "take (s - a) (drop a sm)"
  let ?p2 = "take (e - s) (drop s sm)"
  let ?p3 = "drop e sm"
  have later: "int e \<le> start h" if "h \<in> set gs" for h
    using gaps_ok_member [OF rest that] ints by simp
  have split: "drop a sm = ?p1 @ ?p2 @ ?p3"
  proof -
    have "drop a sm = ?p1 @ drop (s - a) (drop a sm)"
      by (rule append_take_drop_id [symmetric])
    also have "drop (s - a) (drop a sm) = drop s sm" using ase by simp
    also have "drop s sm = ?p2 @ drop (e - s) (drop s sm)"
      by (rule append_take_drop_id [symmetric])
    also have "drop (e - s) (drop s sm) = drop e sm" using ase by simp
    finally show ?thesis .
  qed
  have len1: "length ?p1 = s - a" and len2: "length ?p2 = e - s" using ase by simp_all
  have n1: "nths ?p1 ?S = ?p1"
  proof (rule nths_all, intro allI impI)
    fix i assume "i < length ?p1"
    then have "i < s - a" by (simp only: len1)
    then have i: "i + a < s" by arith
    have "\<not> in_gap g (i + a)" using i ints by (simp add: in_gap_def)
    moreover have "\<not> in_gap h (i + a)" if "h \<in> set gs" for h
      using later [OF that] i ase by (simp add: in_gap_def)
    ultimately show "i \<in> ?S" by simp
  qed
  have n2: "nths ?p2 {j. j + length ?p1 \<in> ?S} = []"
  proof (rule nths_none)
    fix i assume "i < length ?p2"
    then have "i < e - s" by (simp only: len2)
    then have i: "i + s < e" by arith
    have "i + (s - a) + a = i + s" using ase by simp
    moreover have "in_gap g (i + s)" using i ints by (simp add: in_gap_def)
    ultimately show "i \<notin> {j. j + length ?p1 \<in> ?S}" using len1 by simp
  qed
  have n3: "nths ?p3 {j. j + length ?p2 \<in> {j. j + length ?p1 \<in> ?S}} =
            nths ?p3 {j. \<forall>h\<in>set gs. \<not> in_gap h (j + e)}"
  proof -
    have eq: "j + (e - s) + (s - a) + a = j + e" for j using ase by simp
    have "\<not> in_gap g (j + e)" for j using ints by (simp add: in_gap_def)
    then have "{j. j + length ?p2 \<in> {j. j + length ?p1 \<in> ?S}} =
               {j. \<forall>h\<in>set gs. \<not> in_gap h (j + e)}"
      by (simp only: len1 len2 mem_Collect_eq eq) simp
    then show ?thesis by (simp only:)
  qed
  have "nths (drop a sm) ?S = ?p1 @ nths ?p3 {j. \<forall>h\<in>set gs. \<not> in_gap h (j + e)}"
    apply (subst split)
    apply (simp only: nths_append n1 n2 n3)
    apply simp
    done
  moreover have "tail_segments sm (start g + length_gap g) gs =
      nths ?p3 {j. \<forall>h\<in>set gs. \<not> in_gap h (j + e)}"
    using Cons.IH [OF rest] g Cons.prems(2) by (simp add: e_def)
  moreover have "segment sm lo (start g) = ?p1"
    using g Cons.prems(2) by (simp add: segment_def a_def s_def nat_diff_distrib)
  ultimately show ?case by (simp add: a_def)
qed


lemma tail_segments_without_gaps:
  "gaps_ok 0 R (int (length sm)) \<Longrightarrow> tail_segments sm 0 R = without_gaps sm R"
  using tail_segments_nths [of 0 R sm] by (simp add: without_gaps_def)

lemma without_gaps_empty_iff: "without_gaps buf R = [] \<longleftrightarrow> covers R buf"
  by (simp add: without_gaps_def covers_def nths_eq_Nil_iff)

lemma segments_between:
  "gs \<noteq> [] \<Longrightarrow>
   segment buf lo (start (gs ! 0))
     @ concat (map (\<lambda>i. segment buf (start (gs ! i) + length_gap (gs ! i)) (start (gs ! Suc i)))
                 [0..<length gs - 1])
     @ segment buf (start (last gs) + length_gap (last gs)) (int (length buf))
   = tail_segments buf lo gs"
proof (induction gs arbitrary: lo)
  case Nil
  then show ?case by simp
next
  case (Cons g gs)
  show ?case
  proof (cases gs)
    case Nil
    then show ?thesis by simp
  next
    case (Cons h t)
    have upt: "[0..<length (g # gs) - 1] = 0 # map Suc [0..<length gs - 1]"
      using Cons by (simp add: upt_conv_Cons map_Suc_upt del: upt_Suc)
    have "gs \<noteq> []" using Cons by simp
    from Cons.IH [OF this, of "start g + length_gap g"]
    show ?thesis
      by (simp only: upt tail_segments.simps) (simp add: comp_def Cons)
  qed
qed

lemma complement_segments_tail:
  "R \<noteq> [] \<Longrightarrow> complement_segments buf R = tail_segments buf 0 R"
  unfolding complement_segments_def by (rule segments_between)


subsection \<open>The merge of sockets and senders\<close>

lemma send_loop_recipients: "fst ` set (send_loop ums p j ss) \<subseteq> set ss"
  by (induction ss arbitrary: j) auto

lemma send_loop_prepared:
  "(t, SendPrepared q) \<in> set (send_loop ums p j ss) \<Longrightarrow> q = p"
  by (induction ss arbitrary: j) (auto split: if_splits)

lemma send_loop_listener:
  "s \<notin> fst ` set ums \<Longrightarrow>
   filter (\<lambda>x. fst x = s) (send_loop ums p j ss) = replicate (count_list ss s) (s, SendPrepared p)"
proof (induction ss arbitrary: j)
  case Nil
  then show ?case by simp
next
  case (Cons t ss)
  show ?case
  proof (cases "0 \<le> j \<and> nat j < length ums \<and> fst (ums ! nat j) = t")
    case True
    then have "t \<in> fst ` set ums" by (metis nth_mem imageI)
    with Cons.prems have "t \<noteq> s" by auto
    with True Cons.IH [OF Cons.prems] show ?thesis by simp
  next
    case False
    with Cons.IH [OF Cons.prems] show ?thesis by auto
  qed
qed

text \<open>
  With at most \<open>2^31\<close> unique messages the index \<open>j\<close> wraps, if at all, when it has passed
  the last of them, so the loop is the loop with a natural number for the index.
\<close>

lemma send_loop_merge_loop:
  "length ums \<le> 2 ^ 31 \<Longrightarrow> n \<le> length ums \<Longrightarrow> j = int n \<or> (j < 0 \<and> n = length ums) \<Longrightarrow>
     send_loop ums p j ss = merge_loop ums p n ss"
proof (induction ss arbitrary: j n)
  case Nil
  then show ?case by simp
next
  case (Cons s ss)
  show ?case
  proof (cases "n < length ums \<and> fst (ums ! n) = s")
    case True
    with Cons.prems(3) have j: "j = int n" by simp
    from True have n: "Suc n \<le> length ums" by simp
    have next_j: "int_plus j 1 = int (Suc n) \<or> (int_plus j 1 < 0 \<and> Suc n = length ums)"
    proof (cases "Suc n < 2 ^ 31")
      case True
      then have "int_plus j 1 = j + 1"
        unfolding j by (intro int_plus_exact) (simp_all add: is_int_def)
      with j show ?thesis by simp
    next
      case False
      with n Cons.prems(1) have top: "Suc n = 2 ^ 31" "Suc n = length ums" by simp_all
      then have "int n = 2 ^ 31 - 1" by simp
      then have "int_plus j 1 = - (2 ^ 31)"
        unfolding j by (simp add: int_plus_def is_int_def to_int_def)
      with top show ?thesis by simp
    qed
    from Cons.IH [OF Cons.prems(1) n next_j] True j show ?thesis by simp
  next
    case False
    with Cons.prems(3) have neg: "\<not> (0 \<le> j \<and> nat j < length ums \<and> fst (ums ! nat j) = s)"
      by auto
    have s1: "send_loop ums p j (s # ss) = (s, SendPrepared p) # send_loop ums p j ss"
      by (simp only: send_loop.simps neg if_False)
    have m1: "merge_loop ums p n (s # ss) = (s, SendPrepared p) # merge_loop ums p n ss"
      by (simp only: merge_loop.simps False if_False)
    show ?thesis by (simp only: s1 m1 Cons.IH [OF Cons.prems])
  qed
qed

lemma takeWhile_strict_head:
  fixes s :: socket
  assumes "sorted_wrt (<) (s # ss)" and "sorted_wrt (<) ks" and "ks = [] \<or> hd ks \<noteq> s"
  shows "takeWhile (\<lambda>k. k \<in> set (s # ss)) ks = takeWhile (\<lambda>k. k \<in> set ss) ks"
    and "s \<notin> set (takeWhile (\<lambda>k. k \<in> set ss) ks)"
proof -
  from assms(1) have above: "\<forall>t\<in>set ss. s < t" by simp
  show "takeWhile (\<lambda>k. k \<in> set (s # ss)) ks = takeWhile (\<lambda>k. k \<in> set ss) ks"
  proof (cases ks)
    case Nil
    then show ?thesis by simp
  next
    case (Cons k ks')
    with assms(3) have ne: "k \<noteq> s" by simp
    show ?thesis
    proof (cases "k < s")
      case True
      with above have "k \<notin> set (s # ss)" by auto
      then show ?thesis using Cons by simp
    next
      case False
      with ne have "s < k" by simp
      with assms(2) Cons have "\<forall>k'\<in>set ks. s < k'" by auto
      then have "\<forall>k'\<in>set ks. (k' \<in> set (s # ss)) = (k' \<in> set ss)" by auto
      then show ?thesis by (intro takeWhile_cong) auto
    qed
  qed
  from above have "s \<notin> set ss" by auto
  then show "s \<notin> set (takeWhile (\<lambda>k. k \<in> set ss) ks)"
    by (meson set_takeWhileD)
qed

lemma merge_loop_merge:
  assumes keys: "sorted_wrt (<) (map fst ums)"
  shows "sorted_wrt (<) ss \<Longrightarrow>
     merge_loop ums p j ss =
       concat (map (unique_or_prepared ums p
                      (set (takeWhile (\<lambda>k. k \<in> set ss) (drop j (map fst ums))))) ss)"
proof (induction ss arbitrary: j)
  case Nil
  then show ?case by simp
next
  case (Cons s ss)
  let ?ks = "drop j (map fst ums)"
  let ?M = "set (takeWhile (\<lambda>k. k \<in> set (s # ss)) ?ks)"
  from Cons.prems have above: "\<forall>t\<in>set ss. s < t" and ss: "sorted_wrt (<) ss" by simp_all
  have dist: "distinct (map fst ums)" using keys by (simp add: strict_sorted_iff)
  have sks: "sorted_wrt (<) ?ks" using keys by (rule sorted_wrt_drop)
  show ?case
  proof (cases "j < length ums \<and> fst (ums ! j) = s")
    case True
    let ?ks' = "drop (Suc j) (map fst ums)"
    let ?M' = "set (takeWhile (\<lambda>k. k \<in> set ss) ?ks')"
    from True have ks: "?ks = s # ?ks'"
      by (metis Cons_nth_drop_Suc length_map nth_map)
    with sks have later: "\<forall>k\<in>set ?ks'. s < k" by simp
    then have "takeWhile (\<lambda>k. k \<in> set (s # ss)) ?ks' = takeWhile (\<lambda>k. k \<in> set ss) ?ks'"
      by (intro takeWhile_cong) auto
    then have M: "?M = insert s ?M'" by (simp add: ks)
    have "(s, snd (ums ! j)) \<in> set ums" using True by (metis nth_mem prod.collapse)
    then have lookup: "map_of ums s = Some (snd (ums ! j))" using dist by simp
    have head: "unique_or_prepared ums p ?M s =
                  (if snd (ums ! j) \<noteq> [] then [(s, Send (snd (ums ! j)))] else [])"
      unfolding M by (simp add: unique_or_prepared_def lookup)
    have tail: "map (unique_or_prepared ums p ?M) ss = map (unique_or_prepared ums p ?M') ss"
      unfolding M using above by (intro map_cong) (auto simp: unique_or_prepared_def)
    have step: "merge_loop ums p j (s # ss) =
        (if snd (ums ! j) \<noteq> [] then [(s, Send (snd (ums ! j)))] else [])
          @ merge_loop ums p (Suc j) ss"
      using True by simp
    show ?thesis
      by (simp only: step Cons.IH [OF ss, of "Suc j"] list.map concat.simps head tail)
  next
    case False
    let ?M' = "set (takeWhile (\<lambda>k. k \<in> set ss) ?ks)"
    have hd: "?ks = [] \<or> hd ?ks \<noteq> s"
    proof (cases "j < length ums")
      case True
      then have "hd ?ks = fst (ums ! j)" by (simp add: hd_drop_conv_nth)
      with False True show ?thesis by simp
    next
      case False
      then show ?thesis by simp
    qed
    from takeWhile_strict_head [OF Cons.prems sks hd]
    have M: "?M = ?M'" and s: "s \<notin> ?M'" by simp_all
    have head: "unique_or_prepared ums p ?M' s = [(s, SendPrepared p)]"
      using s by (simp add: unique_or_prepared_def)
    have step: "merge_loop ums p j (s # ss) = (s, SendPrepared p) # merge_loop ums p j ss"
      using False by auto
    show ?thesis
      by (simp only: step Cons.IH [OF ss, of j] list.map concat.simps M head) simp
  qed
qed

subsection \<open>Invariants of the room\<close>

lemma push_back_at_not_Nil: "push_back_at m k g \<noteq> []"
  by (cases m) (auto split: if_splits)

lemma non_empty_push_back_at:
  "\<forall>(s, R) \<in> set m. R \<noteq> [] \<Longrightarrow> \<forall>(s, R) \<in> set (push_back_at m k g). R \<noteq> []"
  by (induction m) (auto split: if_splits)

lemma pending_push_back_at:
  "sum_list (map (\<lambda>(s, R). length R) (push_back_at m k g)) =
     Suc (sum_list (map (\<lambda>(s, R). length R) m))"
  by (induction m) (auto split: if_splits)

lemma pending_publish: "pending (publish r sender message) = Suc (pending r)"
  by (simp add: pending_def publish_def Let_def pending_push_back_at)

lemma pending_zero_iff:
  "\<forall>(s, R) \<in> set m. R \<noteq> [] \<Longrightarrow>
     sum_list (map (\<lambda>(s, R). length R) m) = 0 \<longleftrightarrow> m = []"
  by (cases m) auto

lemma length_le_pending:
  "(s, R) \<in> set m \<Longrightarrow> length R \<le> sum_list (map (\<lambda>(s, R). length R) m)"
  by (induction m) auto

lemma entries_le_pending:
  "\<forall>(s, R) \<in> set m. R \<noteq> [] \<Longrightarrow> length m \<le> sum_list (map (\<lambda>(s, R). length R) m)"
proof (induction m)
  case Nil
  then show ?case by simp
next
  case (Cons e m)
  obtain s R where e: "e = (s, R)" by (cases e)
  with Cons.prems have "0 < length R" by simp
  moreover from Cons have "length m \<le> sum_list (map (\<lambda>(s, R). length R) m)" by simp
  ultimately have "Suc (length m) \<le> length R + sum_list (map (\<lambda>(s, R). length R) m)"
    by linarith
  then show ?case by (simp add: e)
qed

lemma gaps_inv_publish:
  assumes "gaps_inv r"
  shows "gaps_inv (publish r sender message)"
proof -
  let ?g = "\<lparr>start = to_int (int (length (sharedMessage r))),
             length_gap = to_int (int (length message))\<rparr>"
  let ?hi = "int (length (sharedMessage r))"
  let ?hi' = "int (length (sharedMessage r @ message))"
  from assms have keys: "sorted_wrt (<) (map fst (uniqueSenders r))"
    and ne: "\<forall>(s, R) \<in> set (uniqueSenders r). R \<noteq> []"
    by (simp_all add: gaps_inv_def)
  have ok: "gaps_ok 0 R ?hi'"
    if bound: "length (sharedMessage r @ message) < 2 ^ 31"
      and mem: "(s, R) \<in> set (push_back_at (uniqueSenders r) sender ?g)" for s R
  proof -
    from bound have b: "length (sharedMessage r) < 2 ^ 31" "length message < 2 ^ 31"
      by simp_all
    from b have g: "?g = \<lparr>start = ?hi, length_gap = int (length message)\<rparr>"
      by (simp add: to_int_nat)
    from assms b(1) have old: "\<And>s R. (s, R) \<in> set (uniqueSenders r) \<Longrightarrow> gaps_ok 0 R ?hi"
      by (auto simp: gaps_inv_def)
    from entries_push_back_at [OF mem]
    consider "(s, R) \<in> set (uniqueSenders r)" | "R = [?g]"
      | R' where "(sender, R') \<in> set (uniqueSenders r)" "R = R' @ [?g]"
      by blast
    then show ?thesis
    proof cases
      case 1
      from old [OF 1] show ?thesis by (auto intro: gaps_ok_mono)
    next
      case 2
      then show ?thesis by (simp add: g)
    next
      case 3
      from old [OF 3(1)] have "gaps_ok 0 R' ?hi" .
      from gaps_ok_snoc [OF this, of "int (length message)"] 3(2)
      show ?thesis by (simp add: g)
    qed
  qed
  have "\<forall>(s, R) \<in> set (push_back_at (uniqueSenders r) sender ?g). R \<noteq> []"
    using ne by (rule non_empty_push_back_at)
  with sorted_push_back_at [OF keys] ok show ?thesis
    by (auto simp: gaps_inv_def publish_def Let_def)
qed

lemma uniqueMessages_ok:
  "\<forall>(s, R) \<in> set m. R \<noteq> [] \<and> gaps_ok 0 R (int (length sm)) \<and> length R \<le> 2 ^ 31 \<Longrightarrow>
   length sm < 2 ^ 31 \<Longrightarrow> m = [] \<or> (0 \<le> i \<and> i + int (length m) \<le> 2 ^ 31) \<Longrightarrow>
   uniqueMessages sm i m = Inr (map (\<lambda>(s, R). (s, without_gaps sm R)) m)"
proof (induction m arbitrary: i)
  case Nil
  then show ?case by simp
next
  case (Cons e m)
  obtain s R where e: "e = (s, R)" by (cases e)
  with Cons.prems have R: "R \<noteq> []" "gaps_ok 0 R (int (length sm))" "length R \<le> 2 ^ 31"
    by auto
  from Cons.prems(3) have i: "0 \<le> i" "i + 1 + int (length m) \<le> 2 ^ 31" by simp_all
  have next_i: "m = [] \<or> (0 \<le> int_plus i 1 \<and> int_plus i 1 + int (length m) \<le> 2 ^ 31)"
  proof (cases m)
    case Nil
    then show ?thesis by simp
  next
    case (Cons e' m')
    with i have "i + 1 < 2 ^ 31" by simp
    with i(1) have "int_plus i 1 = i + 1"
      by (intro int_plus_exact) (simp_all add: is_int_def)
    with i show ?thesis by simp
  qed
  from uniqueMessage_segments [OF R(2) R(1) Cons.prems(2) R(3)]
    tail_segments_without_gaps [OF R(2)]
  have "uniqueMessage sm R = Inr (without_gaps sm R)" by simp
  moreover from Cons.prems(1)
  have "\<forall>(s, R) \<in> set m. R \<noteq> [] \<and> gaps_ok 0 R (int (length sm)) \<and> length R \<le> 2 ^ 31"
    by simp
  from Cons.IH [OF this Cons.prems(2) next_i]
  have "uniqueMessages sm (int_plus i 1) m = Inr (map (\<lambda>(s, R). (s, without_gaps sm R)) m)" .
  ultimately show ?case using i(1) by (simp add: e)
qed

lemma uniqueMessages_room:
  assumes "gaps_inv r" and "length (sharedMessage r) < 2 ^ 31" and "pending r < 2 ^ 31"
  shows "uniqueMessages (sharedMessage r) 0 (uniqueSenders r) =
     Inr (map (\<lambda>(s, R). (s, without_gaps (sharedMessage r) R)) (uniqueSenders r))"
proof -
  from assms(1) have ne: "\<forall>(s, R) \<in> set (uniqueSenders r). R \<noteq> []"
    by (simp add: gaps_inv_def)
  have "length R \<le> 2 ^ 31" if "(s, R) \<in> set (uniqueSenders r)" for s R
    using length_le_pending [OF that] assms(3) by (simp add: pending_def)
  with assms(1,2) have all: "\<forall>(s, R) \<in> set (uniqueSenders r).
      R \<noteq> [] \<and> gaps_ok 0 R (int (length (sharedMessage r))) \<and> length R \<le> 2 ^ 31"
    by (auto simp: gaps_inv_def)
  from entries_le_pending [OF ne] assms(3)
  have "uniqueSenders r = [] \<or> ((0 :: int) \<le> 0 \<and> 0 + int (length (uniqueSenders r)) \<le> 2 ^ 31)"
    by (simp add: pending_def)
  from uniqueMessages_ok [OF all assms(2) this] show ?thesis .
qed

lemma broadcast_ok:
  assumes "gaps_inv r" and "length (sharedMessage r) < 2 ^ 31" and "pending r < 2 ^ 31"
  shows "broadcast r =
     Inr (send_loop (map (\<lambda>(s, R). (s, without_gaps (sharedMessage r) R)) (uniqueSenders r))
            (sharedMessage r) 0 (sockets r),
          r\<lparr>batched := 0, uniqueSenders := [], sharedMessage := []\<rparr>)"
  using uniqueMessages_room [OF assms] by (simp add: broadcast_def)

lemma broadcast_room:
  "broadcast r = Inr (plan, r') \<Longrightarrow>
     r' = r\<lparr>batched := 0, uniqueSenders := [], sharedMessage := []\<rparr>"
  by (auto simp: broadcast_def split: sum.splits)

lemma sorted_addSubscriber: "sorted (sockets (addSubscriber r ws))"
  by (simp add: addSubscriber_def)

lemma room_inv_publish:
  assumes "room_inv r"
  shows "room_inv (publish r sender message)"
proof -
  from assms have "gaps_inv (publish r sender message)"
    by (simp add: room_inv_def gaps_inv_publish)
  moreover have "uniqueSenders (publish r sender message) \<noteq> []"
    by (simp add: publish_def Let_def push_back_at_not_Nil)
  moreover have "sorted (sockets (publish r sender message))"
    using assms by (simp add: room_inv_def publish_def Let_def)
  moreover have "batched (publish r sender message) =
      to_int (int (pending (publish r sender message)))"
  proof -
    from assms have "batched r = to_int (int (pending r))" by (simp add: room_inv_def)
    then have "batched (publish r sender message) = int_plus (to_int (int (pending r))) 1"
      by (simp add: publish_def Let_def)
    also have "\<dots> = to_int (int (pending r) + 1)" by (rule int_plus_to_int)
    finally show ?thesis by (simp add: pending_publish add.commute)
  qed
  ultimately show ?thesis by (simp add: room_inv_def)
qed

lemma room_inv_idle:
  "sorted (sockets r) \<Longrightarrow> room_inv (r\<lparr>batched := 0, uniqueSenders := [], sharedMessage := []\<rparr>)"
  by (simp add: room_inv_def gaps_inv_def pending_def to_int_def)

lemma room_inv_broadcast:
  assumes "room_inv r" and "broadcast r = Inr (plan, r')"
  shows "room_inv r'"
proof -
  from assms(1) have "sorted (sockets r)" by (simp add: room_inv_def)
  from room_inv_idle [OF this] broadcast_room [OF assms(2)] show ?thesis by simp
qed

lemma room_inv_step:
  assumes "room_inv r" and "step r ev = Inr (sends, r')"
  shows "room_inv r'"
proof (cases ev)
  case (AddSubscriber ws)
  with assms(2) have "r' = addSubscriber r ws" by simp
  with assms(1) show ?thesis
    by (simp add: room_inv_def gaps_inv_def pending_def addSubscriber_def)
next
  case (Publish sender message)
  with assms(2) have "r' = publish r sender message" by simp
  with room_inv_publish [OF assms(1)] show ?thesis by simp
next
  case Broadcast
  with assms(2) have "broadcast r = Inr (sends, r')" by simp
  from room_inv_broadcast [OF assms(1) this] show ?thesis .
next
  case PrepareCallback
  with assms(2) have "r' = prepare_callback r" by simp
  with assms(1) show ?thesis
    by (simp add: room_inv_def gaps_inv_def pending_def prepare_callback_def)
next
  case CheckCallback
  with assms(2) have cc: "check_callback r = Inr (sends, r')" by simp
  show ?thesis
  proof (cases "batched r \<noteq> 0 \<and> \<not> gotPubsThisIteration r")
    case True
    with cc have "broadcast r = Inr (sends, r')" by (simp add: check_callback_def)
    from room_inv_broadcast [OF assms(1) this] show ?thesis .
  next
    case False
    with cc have "r' = r" by (auto simp: check_callback_def)
    with assms(1) show ?thesis by simp
  qed
qed

lemma room_inv_run:
  "room_inv r \<Longrightarrow> run r evs = Inr (sends, r') \<Longrightarrow> room_inv r'"
proof (induction evs arbitrary: r sends)
  case Nil
  then show ?case by simp
next
  case (Cons ev evs)
  from Cons.prems(2) obtain s1 r1 s2 where st: "step r ev = Inr (s1, r1)"
    and rest: "run r1 evs = Inr (s2, r')"
    by (auto split: sum.splits prod.splits)
  from Cons.IH [OF room_inv_step [OF Cons.prems(1) st] rest] show ?case .
qed

lemma room_inv_defaultRoom: "room_inv defaultRoom"
  by (simp add: room_inv_def gaps_inv_def defaultRoom_def pending_def to_int_def)

text \<open>
  Runs of fewer than \<open>2^31\<close> publications that publish fewer than \<open>2^31\<close> bytes in all
  succeed: the shared message never reaches \<open>2^31\<close> bytes, so no \<open>substr\<close> throws, and
  no counter wraps.
\<close>

lemma payloads_append: "payloads (evs @ evs') = payloads evs @ payloads evs'"
  by (induction evs rule: payloads.induct) simp_all

lemma step_total_bounded:
  assumes "room_inv r" and "length (sharedMessage r) < 2 ^ 31" and "pending r < 2 ^ 31"
  shows "\<exists>sends r'. step r ev = Inr (sends, r')"
proof (cases ev)
  case Broadcast
  from assms have "gaps_inv r" by (simp add: room_inv_def)
  from broadcast_ok [OF this assms(2,3)] Broadcast show ?thesis by simp
next
  case CheckCallback
  from assms have "gaps_inv r" by (simp add: room_inv_def)
  from broadcast_ok [OF this assms(2,3)] CheckCallback show ?thesis
    by (simp add: check_callback_def)
qed simp_all

lemma step_sharedMessage:
  "step r ev = Inr (sends, r') \<Longrightarrow>
     length (sharedMessage r') + length (payloads evs)
       \<le> length (sharedMessage r) + length (payloads (ev # evs))"
proof (cases ev)
  case Broadcast
  assume "step r ev = Inr (sends, r')"
  with Broadcast have "broadcast r = Inr (sends, r')" by simp
  from broadcast_room [OF this] Broadcast show ?thesis by simp
next
  case CheckCallback
  assume "step r ev = Inr (sends, r')"
  with CheckCallback have "check_callback r = Inr (sends, r')" by simp
  then have "r' = r \<or> broadcast r = Inr (sends, r')"
    by (auto simp: check_callback_def split: if_splits)
  with CheckCallback show ?thesis by (auto dest: broadcast_room)
qed (auto simp: addSubscriber_def publish_def Let_def prepare_callback_def)

lemma step_pending:
  "step r ev = Inr (sends, r') \<Longrightarrow>
     pending r' + publications evs \<le> pending r + publications (ev # evs)"
proof (cases ev)
  case (Publish sender message)
  assume "step r ev = Inr (sends, r')"
  with Publish have "r' = publish r sender message" by simp
  with Publish show ?thesis by (simp add: pending_publish)
next
  case Broadcast
  assume "step r ev = Inr (sends, r')"
  with Broadcast have "broadcast r = Inr (sends, r')" by simp
  from broadcast_room [OF this] Broadcast show ?thesis by (simp add: pending_def)
next
  case CheckCallback
  assume "step r ev = Inr (sends, r')"
  with CheckCallback have "check_callback r = Inr (sends, r')" by simp
  then have "r' = r \<or> broadcast r = Inr (sends, r')"
    by (auto simp: check_callback_def split: if_splits)
  with CheckCallback show ?thesis by (auto dest!: broadcast_room simp: pending_def)
qed (auto simp: addSubscriber_def prepare_callback_def pending_def)

lemma run_total_bounded:
  "room_inv r \<Longrightarrow> length (sharedMessage r) + length (payloads evs) < 2 ^ 31 \<Longrightarrow>
   pending r + publications evs < 2 ^ 31 \<Longrightarrow>
     \<exists>sends r'. run r evs = Inr (sends, r')"
proof (induction evs arbitrary: r)
  case Nil
  then show ?case by simp
next
  case (Cons ev evs)
  from Cons.prems(2) have b: "length (sharedMessage r) < 2 ^ 31" by simp
  have "pending r \<le> pending r + publications (ev # evs)" by simp
  from this Cons.prems(3) have c: "pending r < 2 ^ 31" by (rule le_less_trans)
  from step_total_bounded [OF Cons.prems(1) b c, of ev]
  obtain s1 r1 where st: "step r ev = Inr (s1, r1)" by blast
  from step_sharedMessage [OF st, of evs] Cons.prems(2)
  have b1: "length (sharedMessage r1) + length (payloads evs) < 2 ^ 31" by simp
  from step_pending [OF st, of evs] Cons.prems(3)
  have c1: "pending r1 + publications evs < 2 ^ 31" by (rule le_less_trans)
  from Cons.IH [OF room_inv_step [OF Cons.prems(1) st] b1 c1]
  obtain s2 r2 where "run r1 evs = Inr (s2, r2)" by blast
  with st show ?case by simp
qed

lemma run_total_defaultRoom:
  "length (payloads evs) < 2 ^ 31 \<Longrightarrow> publications evs < 2 ^ 31 \<Longrightarrow>
     \<exists>sends r. run defaultRoom evs = Inr (sends, r)"
  using run_total_bounded [OF room_inv_defaultRoom, of evs]
  by (simp add: defaultRoom_def pending_def)

subsection \<open>Sorted and disjoint ranges\<close>

lemma gaps_ok_sorted_wrt:
  "gaps_ok lo R hi \<Longrightarrow> sorted_wrt (\<lambda>g h. start g + length_gap g \<le> start h) R"
proof (induction R arbitrary: lo)
  case Nil
  then show ?case by simp
next
  case (Cons g gs)
  from Cons.prems have rest: "gaps_ok (start g + length_gap g) gs hi" by simp
  from gaps_ok_member [OF rest] Cons.IH [OF rest] show ?case by simp
qed

lemma chain_ranges:
  assumes chain: "sorted_wrt (\<lambda>g h. start g + length_gap g \<le> start h) R"
    and bounds: "\<forall>g\<in>set R. in_bounds buf g"
  shows "sorted (map start R)"
    and "(\<forall>g\<in>set R. 0 < length_gap g) \<longrightarrow> sorted_wrt (<) (map start R)"
    and "disjoint_ranges R"
proof -
  have pair: "start (R ! i) + length_gap (R ! i) \<le> start (R ! j)" if "i < j" "j < length R" for i j
    using chain that by (simp add: sorted_wrt_iff_nth_less)
  have nonneg: "0 \<le> length_gap (R ! i)" if "i < length R" for i
    using bounds that by (simp add: in_bounds_def)
  have "sorted_wrt (\<lambda>g h. start g \<le> start h) R"
    unfolding sorted_wrt_iff_nth_less
  proof (intro allI impI)
    fix i j assume "i < j" "j < length R"
    with pair [of i j] nonneg [of i] show "start (R ! i) \<le> start (R ! j)" by simp
  qed
  then show "sorted (map start R)" by (simp add: sorted_wrt_map)
  show "(\<forall>g\<in>set R. 0 < length_gap g) \<longrightarrow> sorted_wrt (<) (map start R)"
  proof
    assume pos: "\<forall>g\<in>set R. 0 < length_gap g"
    have "sorted_wrt (\<lambda>g h. start g < start h) R"
      unfolding sorted_wrt_iff_nth_less
    proof (intro allI impI)
      fix i j assume ij: "i < j" "j < length R"
      with pos have "0 < length_gap (R ! i)" by simp
      with pair [OF ij] show "start (R ! i) < start (R ! j)" by simp
    qed
    then show "sorted_wrt (<) (map start R)" by (simp add: sorted_wrt_map)
  qed
  show "disjoint_ranges R"
    unfolding disjoint_ranges_def
  proof (intro allI impI notI)
    fix j i assume ij: "j < length R" "i < j"
    assume "overlap (R ! i) (R ! j)"
    then obtain k where "in_gap (R ! i) k" "in_gap (R ! j) k" by (auto simp: overlap_def)
    with pair [OF ij(2) ij(1)] show False by (simp add: in_gap_def)
  qed
qed

lemma gaps_ok_bounds: "gaps_ok 0 R (int (length buf)) \<Longrightarrow> \<forall>g\<in>set R. in_bounds buf g"
  using gaps_ok_member [of 0 R "int (length buf)"] by (simp add: in_bounds_def)

lemma ranges_sorted_iff:
  "ranges_sorted r \<longleftrightarrow>
     (\<forall>(s, R) \<in> set (uniqueSenders r).
        sorted_wrt (\<lambda>g h. start g + length_gap g \<le> start h) R \<and>
        (\<forall>g\<in>set R. in_bounds (sharedMessage r) g))"
  unfolding ranges_sorted_def using chain_ranges by (auto simp del: sorted_wrt_map)

lemma gaps_inv_ranges_sorted:
  "gaps_inv r \<Longrightarrow> length (sharedMessage r) < 2 ^ 31 \<Longrightarrow> ranges_sorted r"
  unfolding ranges_sorted_iff gaps_inv_def
  using gaps_ok_sorted_wrt gaps_ok_bounds by fastforce

lemma ranges_sorted_publish:
  assumes "ranges_sorted r" and bound: "length (sharedMessage r @ message) < 2 ^ 31"
  shows "ranges_sorted (publish r sender message)"
proof -
  let ?g = "\<lparr>start = int (length (sharedMessage r)), length_gap = int (length message)\<rparr>"
  let ?chain = "sorted_wrt (\<lambda>g h. start g + length_gap g \<le> start h)"
  from bound have b: "length (sharedMessage r) < 2 ^ 31" "length message < 2 ^ 31"
    by simp_all
  then have pub: "publish r sender message =
      r\<lparr>sharedMessage := sharedMessage r @ message,
        uniqueSenders := push_back_at (uniqueSenders r) sender ?g,
        gotPubsThisIteration := True,
        batched := int_plus (batched r) 1\<rparr>"
    by (simp add: publish_def Let_def to_int_nat)
  from assms have old: "\<And>s R. (s, R) \<in> set (uniqueSenders r) \<Longrightarrow>
      ?chain R \<and> (\<forall>g\<in>set R. in_bounds (sharedMessage r) g)"
    unfolding ranges_sorted_iff by auto
  have grow: "in_bounds (sharedMessage r @ message) g" if "in_bounds (sharedMessage r) g" for g
    using that by (simp add: in_bounds_def)
  have new: "in_bounds (sharedMessage r @ message) ?g" by (simp add: in_bounds_def)
  have "?chain R \<and> (\<forall>g\<in>set R. in_bounds (sharedMessage r @ message) g)"
    if "(s, R) \<in> set (push_back_at (uniqueSenders r) sender ?g)" for s R
  proof -
    from entries_push_back_at [OF that]
    consider "(s, R) \<in> set (uniqueSenders r)" | "R = [?g]"
      | R' where "(sender, R') \<in> set (uniqueSenders r)" "R = R' @ [?g]"
      by blast
    then show ?thesis
    proof cases
      case 1
      from old [OF 1] grow show ?thesis by blast
    next
      case 2
      with new show ?thesis by simp
    next
      case 3
      from old [OF 3(1)] have c: "?chain R'" and b: "\<forall>g\<in>set R'. in_bounds (sharedMessage r) g"
        by simp_all
      from b have "\<forall>g\<in>set R'. start g + length_gap g \<le> start ?g"
        by (simp add: in_bounds_def)
      with c have "?chain (R' @ [?g])" by (simp add: sorted_wrt_append)
      moreover from b grow new have "\<forall>g\<in>set (R' @ [?g]). in_bounds (sharedMessage r @ message) g"
        by auto
      ultimately show ?thesis using 3(2) by simp
    qed
  qed
  then show ?thesis
    unfolding ranges_sorted_iff pub by auto
qed

subsection \<open>Errors of the broadcast\<close>

lemma gap_loop_not_OutOfBounds: "gap_loop sm gs j lastStop msg \<noteq> Inl OutOfBounds"
  by (induction gs arbitrary: j lastStop msg) (auto simp: substr_def split: sum.splits)

lemma uniqueMessage_not_OutOfBounds: "gaps \<noteq> [] \<Longrightarrow> uniqueMessage sm gaps \<noteq> Inl OutOfBounds"
  using gap_loop_not_OutOfBounds
  by (auto simp: uniqueMessage_def substr_def substr_from_def split: list.splits sum.splits)

lemma uniqueMessages_not_OutOfBounds:
  "\<forall>(s, R) \<in> set m. R \<noteq> [] \<Longrightarrow> uniqueMessages sm i m \<noteq> Inl OutOfBounds"
proof (induction m arbitrary: i)
  case Nil
  then show ?case by simp
next
  case (Cons e m)
  obtain s R where e: "e = (s, R)" by (cases e)
  with Cons.prems have "R \<noteq> []" by simp
  moreover from Cons have "uniqueMessages sm (int_plus i 1) m \<noteq> Inl OutOfBounds" by simp
  ultimately show ?case
    using uniqueMessage_not_OutOfBounds [of R sm] by (auto simp: e split: sum.splits)
qed

subsection \<open>Sockets that published nothing\<close>

lemma uniqueMessages_keys: "uniqueMessages sm i m = Inr ums \<Longrightarrow> map fst ums = map fst m"
  by (induction m arbitrary: i ums) (auto split: sum.splits if_splits)

lemma uniqueMessages_length:
  "uniqueMessages sm i m = Inr ums \<Longrightarrow> 0 \<le> i \<Longrightarrow> i < 2 ^ 31 \<Longrightarrow>
     i + int (length m) \<le> 2 ^ 31"
proof (induction m arbitrary: i ums)
  case Nil
  then show ?case by simp
next
  case (Cons e m)
  obtain s R where e: "e = (s, R)" by (cases e)
  from Cons.prems(1) obtain ms where rest: "uniqueMessages sm (int_plus i 1) m = Inr ms"
    by (auto simp: e split: sum.splits if_splits)
  show ?case
  proof (cases "i + 1 < 2 ^ 31")
    case True
    with Cons.prems(2) have "int_plus i 1 = i + 1"
      by (intro int_plus_exact) (simp_all add: is_int_def)
    with Cons.IH [of "i + 1" ms] rest True Cons.prems(2) show ?thesis by simp
  next
    case False
    with Cons.prems(3) have i: "i = 2 ^ 31 - 1" by simp
    then have "int_plus i 1 < 0" by (simp add: int_plus_def is_int_def to_int_def)
    with rest have "m = []" by (cases m) auto
    with i show ?thesis by simp
  qed
qed

text \<open>
  When the first loop succeeds there are at most \<open>2^31\<close> unique messages, so the second
  loop is the loop with a natural number for the index.
\<close>

lemma broadcast_merge_loop:
  assumes "broadcast r = Inr (plan, r')"
  shows "\<exists>ums. uniqueMessages (sharedMessage r) 0 (uniqueSenders r) = Inr ums
           \<and> plan = merge_loop ums (sharedMessage r) 0 (sockets r)"
proof -
  from assms obtain ums where ums: "uniqueMessages (sharedMessage r) 0 (uniqueSenders r) = Inr ums"
    and plan: "plan = send_loop ums (sharedMessage r) 0 (sockets r)"
    by (auto simp: broadcast_def split: sum.splits)
  from uniqueMessages_length [OF ums] have "int (length (uniqueSenders r)) \<le> 2 ^ 31" by simp
  moreover from uniqueMessages_keys [OF ums] have "length ums = length (uniqueSenders r)"
    by (metis length_map)
  ultimately have "length ums \<le> 2 ^ 31" by simp
  then have "send_loop ums (sharedMessage r) 0 (sockets r) =
      merge_loop ums (sharedMessage r) 0 (sockets r)"
    by (intro send_loop_merge_loop) simp_all
  with ums plan show ?thesis by simp
qed

text \<open>With more than \<open>2^31\<close> senders the index \<open>i\<close> of the first loop wraps.\<close>

lemma uniqueMessages_negative_index:
  "uniqueMessages sm 2147483647 [(s, [\<lparr>start = 0, length_gap = 0\<rparr>]), (t, R)] = Inl NegativeIndex"
  by (simp add: uniqueMessage_def substr_def substr_from_def int_plus_def is_int_def to_int_def)

lemma send_loop_no_senders:
  "send_loop [] p j ss = map (\<lambda>s. (s, SendPrepared p)) ss"
  by (induction ss arbitrary: j) auto

lemma broadcast_listener:
  assumes "broadcast r = Inr (plan, r')" and "s \<notin> fst ` set (uniqueSenders r)"
  shows "filter (\<lambda>x. fst x = s) plan = replicate (count_list (sockets r) s) (s, SendPrepared (sharedMessage r))"
proof -
  from assms(1) obtain ums where ums: "uniqueMessages (sharedMessage r) 0 (uniqueSenders r) = Inr ums"
    and plan: "plan = send_loop ums (sharedMessage r) 0 (sockets r)"
    by (auto simp: broadcast_def split: sum.splits)
  from uniqueMessages_keys [OF ums] assms(2) have "s \<notin> fst ` set ums"
    by (metis set_map)
  from send_loop_listener [OF this] plan show ?thesis by simp
qed


lemma step_not_OutOfBounds: "room_inv r \<Longrightarrow> step r ev \<noteq> Inl OutOfBounds"
proof (cases ev)
  case Broadcast
  assume "room_inv r"
  then have "\<forall>(s, R) \<in> set (uniqueSenders r). R \<noteq> []"
    by (simp add: room_inv_def gaps_inv_def)
  from uniqueMessages_not_OutOfBounds [OF this, of "sharedMessage r" 0] Broadcast
  show ?thesis by (auto simp: broadcast_def split: sum.splits)
next
  case CheckCallback
  assume "room_inv r"
  then have "\<forall>(s, R) \<in> set (uniqueSenders r). R \<noteq> []"
    by (simp add: room_inv_def gaps_inv_def)
  from uniqueMessages_not_OutOfBounds [OF this, of "sharedMessage r" 0] CheckCallback
  show ?thesis by (auto simp: check_callback_def broadcast_def split: sum.splits)
qed simp_all

lemma run_not_OutOfBounds: "room_inv r \<Longrightarrow> run r evs \<noteq> Inl OutOfBounds"
proof (induction evs arbitrary: r)
  case Nil
  then show ?case by simp
next
  case (Cons ev evs)
  show ?case
  proof (cases "step r ev")
    case (Inl e)
    with step_not_OutOfBounds [OF Cons.prems, of ev] show ?thesis by simp
  next
    case (Inr p)
    obtain s1 r1 where p: "p = (s1, r1)" by (cases p)
    from Cons.IH [OF room_inv_step [OF Cons.prems Inr [unfolded p]]] Inr p
    show ?thesis by (auto split: sum.splits)
  qed
qed

subsection \<open>Runs within a window\<close>

lemma run_append:
  "run r (evs @ evs') =
     (case run r evs of
        Inl e \<Rightarrow> Inl e
      | Inr (sends, r') \<Rightarrow>
          (case run r' evs' of Inl e \<Rightarrow> Inl e | Inr (sends', r'') \<Rightarrow> Inr (sends @ sends', r'')))"
  by (induction evs arbitrary: r) (auto split: sum.splits prod.splits)

lemma window_Cons: "window (ev # evs) \<longleftrightarrow> window_event ev \<and> window evs"
  by (simp add: window_def)

lemma window_run_total: "window evs \<Longrightarrow> \<exists>r'. run r evs = Inr ([], r')"
proof (induction evs arbitrary: r)
  case Nil
  then show ?case by simp
next
  case (Cons ev evs)
  then have w: "window_event ev" "window evs" by (simp_all add: window_Cons)
  from w(1) obtain r1 where st: "step r ev = Inr ([], r1)" by (cases ev) auto
  from Cons.IH [OF w(2), of r1] st show ?case by auto
qed

lemma window_run_sharedMessage:
  "window evs \<Longrightarrow> run r evs = Inr (sends, r') \<Longrightarrow>
     sends = [] \<and> sharedMessage r' = sharedMessage r @ payloads evs"
proof (induction evs arbitrary: r sends)
  case Nil
  then show ?case by simp
next
  case (Cons ev evs)
  then have w: "window_event ev" "window evs" by (simp_all add: window_Cons)
  show ?case
  proof (cases ev)
    case (AddSubscriber ws)
    with Cons.prems(2) have "run (addSubscriber r ws) evs = Inr (sends, r')"
      by (auto split: sum.splits)
    from Cons.IH [OF w(2) this] AddSubscriber show ?thesis by (simp add: addSubscriber_def)
  next
    case (Publish sender message)
    with Cons.prems(2) have "run (publish r sender message) evs = Inr (sends, r')"
      by (auto split: sum.splits)
    from Cons.IH [OF w(2) this] Publish show ?thesis by (simp add: publish_def Let_def)
  qed (use w(1) in simp_all)
qed

lemma window_run_gaps_inv:
  "window evs \<Longrightarrow> run r evs = Inr (sends, r') \<Longrightarrow> gaps_inv r \<Longrightarrow> gaps_inv r'"
proof (induction evs arbitrary: r sends)
  case Nil
  then show ?case by simp
next
  case (Cons ev evs)
  then have w: "window_event ev" "window evs" by (simp_all add: window_Cons)
  show ?case
  proof (cases ev)
    case (AddSubscriber ws)
    with Cons.prems(2) have run: "run (addSubscriber r ws) evs = Inr (sends, r')"
      by (auto split: sum.splits)
    from Cons.prems(3) have "gaps_inv (addSubscriber r ws)"
      by (simp add: gaps_inv_def addSubscriber_def)
    from Cons.IH [OF w(2) run this] show ?thesis .
  next
    case (Publish sender message)
    with Cons.prems(2) have run: "run (publish r sender message) evs = Inr (sends, r')"
      by (auto split: sum.splits)
    from Cons.IH [OF w(2) run gaps_inv_publish [OF Cons.prems(3)]] show ?thesis .
  qed (use w(1) in simp_all)
qed

lemma window_run_sockets:
  "window evs \<Longrightarrow> run r evs = Inr (sends, r') \<Longrightarrow> sorted (sockets r) \<Longrightarrow> sorted (sockets r')"
proof (induction evs arbitrary: r sends)
  case Nil
  then show ?case by simp
next
  case (Cons ev evs)
  then have w: "window_event ev" "window evs" by (simp_all add: window_Cons)
  show ?case
  proof (cases ev)
    case (AddSubscriber ws)
    with Cons.prems(2) have run: "run (addSubscriber r ws) evs = Inr (sends, r')"
      by (auto split: sum.splits)
    from Cons.IH [OF w(2) run sorted_addSubscriber] show ?thesis .
  next
    case (Publish sender message)
    with Cons.prems(2) have run: "run (publish r sender message) evs = Inr (sends, r')"
      by (auto split: sum.splits)
    from Cons.prems(3) have "sorted (sockets (publish r sender message))"
      by (simp add: publish_def Let_def)
    from Cons.IH [OF w(2) run this] show ?thesis .
  qed (use w(1) in simp_all)
qed

lemma window_run_keys:
  "window evs \<Longrightarrow> run r evs = Inr (sends, r') \<Longrightarrow> sorted_wrt (<) (map fst (uniqueSenders r)) \<Longrightarrow>
     sorted_wrt (<) (map fst (uniqueSenders r')) \<and>
     fst ` set (uniqueSenders r') = fst ` set (uniqueSenders r) \<union> senders evs"
proof (induction evs arbitrary: r sends)
  case Nil
  then show ?case by simp
next
  case (Cons ev evs)
  then have w: "window_event ev" "window evs" by (simp_all add: window_Cons)
  show ?case
  proof (cases ev)
    case (AddSubscriber ws)
    with Cons.prems(2) have run: "run (addSubscriber r ws) evs = Inr (sends, r')"
      by (auto split: sum.splits)
    from Cons.prems(3) have "sorted_wrt (<) (map fst (uniqueSenders (addSubscriber r ws)))"
      by (simp add: addSubscriber_def)
    from Cons.IH [OF w(2) run this] AddSubscriber show ?thesis by (simp add: addSubscriber_def)
  next
    case (Publish sender message)
    let ?r1 = "publish r sender message"
    from Publish Cons.prems(2) have run: "run ?r1 evs = Inr (sends, r')"
      by (auto split: sum.splits)
    have keys: "sorted_wrt (<) (map fst (uniqueSenders ?r1))"
      using sorted_push_back_at [OF Cons.prems(3)] by (simp add: publish_def Let_def)
    have "set (map fst (uniqueSenders ?r1)) = insert sender (set (map fst (uniqueSenders r)))"
      using keys_push_back_at [of "uniqueSenders r" sender] by (simp add: publish_def Let_def)
    then have "fst ` set (uniqueSenders ?r1) = insert sender (fst ` set (uniqueSenders r))"
      by simp
    with Cons.IH [OF w(2) run keys] Publish show ?thesis by auto
  qed (use w(1) in simp_all)
qed

lemma window_run_ranges:
  "window evs \<Longrightarrow> run r evs = Inr (sends, r') \<Longrightarrow> sorted_wrt (<) (map fst (uniqueSenders r)) \<Longrightarrow>
   length (sharedMessage r') < 2 ^ 31 \<Longrightarrow>
     map_of (uniqueSenders r') s =
       extend_ranges (map_of (uniqueSenders r) s) (published_ranges s (length (sharedMessage r)) evs)"
proof (induction evs arbitrary: r sends)
  case Nil
  then show ?case by (simp add: extend_ranges_def split: option.splits)
next
  case (Cons ev evs)
  then have w: "window_event ev" "window evs" by (simp_all add: window_Cons)
  show ?case
  proof (cases ev)
    case (AddSubscriber ws)
    with Cons.prems(2) have run: "run (addSubscriber r ws) evs = Inr (sends, r')"
      by (auto split: sum.splits)
    from Cons.prems(3) have "sorted_wrt (<) (map fst (uniqueSenders (addSubscriber r ws)))"
      by (simp add: addSubscriber_def)
    from Cons.IH [OF w(2) run this Cons.prems(4)] AddSubscriber show ?thesis
      by (simp add: addSubscriber_def)
  next
    case (Publish sender message)
    let ?r1 = "publish r sender message"
    from Publish Cons.prems(2) have run: "run ?r1 evs = Inr (sends, r')"
      by (auto split: sum.splits)
    have keys: "sorted_wrt (<) (map fst (uniqueSenders ?r1))"
      using sorted_push_back_at [OF Cons.prems(3)] by (simp add: publish_def Let_def)
    have len: "length (sharedMessage ?r1) = length (sharedMessage r) + length message"
      by (simp add: publish_def Let_def)
    from window_run_sharedMessage [OF w(2) run] Cons.prems(4) len
    have b: "length (sharedMessage r) < 2 ^ 31" "length message < 2 ^ 31" by simp_all
    have m1: "map_of (uniqueSenders ?r1) =
        (map_of (uniqueSenders r))(sender \<mapsto>
          (case map_of (uniqueSenders r) sender of None \<Rightarrow> [] | Some gs \<Rightarrow> gs)
            @ [\<lparr>start = int (length (sharedMessage r)), length_gap = int (length message)\<rparr>])"
      using map_of_push_back_at [OF Cons.prems(3)] b
      by (simp add: publish_def Let_def to_int_nat)
    from Cons.IH [OF w(2) run keys Cons.prems(4)] show ?thesis
      by (simp add: Publish m1 len extend_ranges_def split: option.splits)
  qed (use w(1) in simp_all)
qed

lemma published_ranges_Nil_iff: "published_ranges s off evs = [] \<longleftrightarrow> s \<notin> senders evs"
  by (induction s off evs rule: published_ranges.induct) auto

lemma window_start_gaps_inv: "window_start r \<Longrightarrow> gaps_inv r"
  by (simp add: window_start_def gaps_inv_def)

lemma window_senders:
  assumes "window_start r0" "window evs" "run r0 evs = Inr (sends, r)"
  shows "fst ` set (uniqueSenders r) = senders evs"
    and "distinct (map fst (uniqueSenders r))"
proof -
  from assms(1) have "sorted_wrt (<) (map fst (uniqueSenders r0))" "uniqueSenders r0 = []"
    by (simp_all add: window_start_def)
  with window_run_keys [OF assms(2,3)]
  show "fst ` set (uniqueSenders r) = senders evs" "distinct (map fst (uniqueSenders r))"
    by (simp_all add: strict_sorted_iff)
qed

lemma window_lookup:
  assumes "window_start r0" "window evs" "run r0 evs = Inr (sends, r)"
    and "length (sharedMessage r) < 2 ^ 31"
  shows "map_of (uniqueSenders r) s =
           (if s \<in> senders evs then Some (published_ranges s 0 evs) else None)"
proof -
  from assms(1) have start: "uniqueSenders r0 = []" "sharedMessage r0 = []"
    by (simp_all add: window_start_def)
  then have "sorted_wrt (<) (map fst (uniqueSenders r0))" by simp
  from window_run_ranges [OF assms(2,3) this assms(4), of s]
  have "map_of (uniqueSenders r) s = extend_ranges None (published_ranges s 0 evs)"
    by (simp add: start)
  then show ?thesis
    using published_ranges_Nil_iff [of s 0 evs] by (simp add: extend_ranges_def)
qed

lemma window_run_pending:
  "window evs \<Longrightarrow> run r evs = Inr (sends, r') \<Longrightarrow> pending r' = pending r + publications evs"
proof (induction evs arbitrary: r sends)
  case Nil
  then show ?case by simp
next
  case (Cons ev evs)
  then have w: "window_event ev" "window evs" by (simp_all add: window_Cons)
  show ?case
  proof (cases ev)
    case (AddSubscriber ws)
    with Cons.prems(2) have "run (addSubscriber r ws) evs = Inr (sends, r')"
      by (auto split: sum.splits)
    from Cons.IH [OF w(2) this] AddSubscriber show ?thesis
      by (simp add: addSubscriber_def pending_def)
  next
    case (Publish sender message)
    with Cons.prems(2) have "run (publish r sender message) evs = Inr (sends, r')"
      by (auto split: sum.splits)
    from Cons.IH [OF w(2) this] Publish show ?thesis by (simp add: pending_publish)
  qed (use w(1) in simp_all)
qed

lemma window_run_quiet:
  "window evs \<Longrightarrow> senders evs = {} \<Longrightarrow> run r evs = Inr (sends, r') \<Longrightarrow>
     r' = r\<lparr>sockets := sockets r'\<rparr>"
proof (induction evs arbitrary: r sends)
  case Nil
  then show ?case by simp
next
  case (Cons ev evs)
  then have w: "window_event ev" "window evs" by (simp_all add: window_Cons)
  show ?case
  proof (cases ev)
    case (AddSubscriber ws)
    with Cons.prems(3) have run: "run (addSubscriber r ws) evs = Inr (sends, r')"
      by (auto split: sum.splits)
    from Cons.prems(2) AddSubscriber have "senders evs = {}" by simp
    from Cons.IH [OF w(2) this run] show ?thesis by (simp add: addSubscriber_def)
  next
    case (Publish sender message)
    with Cons.prems(2) show ?thesis by simp
  qed (use w(1) in simp_all)
qed

lemma window_run_busy:
  "window evs \<Longrightarrow> run r evs = Inr (sends, r') \<Longrightarrow>
     (gotPubsThisIteration r \<or> senders evs \<noteq> {} \<longrightarrow> gotPubsThisIteration r')
     \<and> (uniqueSenders r \<noteq> [] \<or> senders evs \<noteq> {} \<longrightarrow> uniqueSenders r' \<noteq> [])"
proof (induction evs arbitrary: r sends)
  case Nil
  then show ?case by simp
next
  case (Cons ev evs)
  then have w: "window_event ev" "window evs" by (simp_all add: window_Cons)
  show ?case
  proof (cases ev)
    case (AddSubscriber ws)
    with Cons.prems(2) have "run (addSubscriber r ws) evs = Inr (sends, r')"
      by (auto split: sum.splits)
    from Cons.IH [OF w(2) this] AddSubscriber show ?thesis by (simp add: addSubscriber_def)
  next
    case (Publish sender message)
    with Cons.prems(2) have "run (publish r sender message) evs = Inr (sends, r')"
      by (auto split: sum.splits)
    from Cons.IH [OF w(2) this] Publish show ?thesis
      by (simp add: publish_def Let_def push_back_at_not_Nil)
  qed (use w(1) in simp_all)
qed

lemma without_gaps_Nil [simp]: "without_gaps buf [] = buf"
  by (simp add: without_gaps_def nths_all)

subsection \<open>The sends of a broadcast\<close>

lemma self_echo_free_without_gaps: "self_echo_free buf R (without_gaps buf R)"
  unfolding self_echo_free_def without_gaps_def by (intro exI [of _ "{i. \<forall>g\<in>set R. \<not> in_gap g i}"]) simp

lemma self_echo_free_no_ranges: "self_echo_free buf [] buf"
  using self_echo_free_without_gaps [of buf "[]"] by simp

lemma in_takeWhile_sorted:
  fixes x :: socket
  assumes "sorted_wrt (<) xs" and "x \<in> set xs" and "\<forall>y\<in>set xs. y \<le> x \<longrightarrow> P y"
  shows "x \<in> set (takeWhile P xs)"
  using assms
proof (induction xs)
  case Nil
  then show ?case by simp
next
  case (Cons y ys)
  show ?case
  proof (cases "x = y")
    case True
    with Cons.prems(3) show ?thesis by simp
  next
    case False
    with Cons.prems have "x \<in> set ys" "y < x" by auto
    with Cons.prems have "P y" "sorted_wrt (<) ys" "\<forall>z\<in>set ys. z \<le> x \<longrightarrow> P z" by auto
    with Cons.IH \<open>x \<in> set ys\<close> show ?thesis by simp
  qed
qed

lemma filter_concat_map_distinct:
  assumes "distinct ss" and "\<And>t. fst ` set (f t) \<subseteq> {t}"
  shows "filter (\<lambda>x. fst x = s) (concat (map f ss)) = (if s \<in> set ss then f s else [])"
  using assms(1)
proof (induction ss)
  case Nil
  then show ?case by simp
next
  case (Cons t ss)
  have own: "filter (\<lambda>x. fst x = t) (f t) = f t"
    using assms(2) [of t] by (auto simp: filter_id_conv)
  have other: "filter (\<lambda>x. fst x = s) (f t) = []" if "s \<noteq> t"
    using assms(2) [of t] that by (auto simp: filter_empty_conv)
  from Cons.prems have t: "t \<notin> set ss" and d: "distinct ss" by simp_all
  show ?case
  proof (cases "s = t")
    case True
    with t Cons.IH [OF d] own show ?thesis by simp
  next
    case False
    with Cons.IH [OF d] other show ?thesis by simp
  qed
qed

lemma broadcast_merge:
  assumes inv: "gaps_inv r" and ss: "sorted_wrt (<) (sockets r)"
    and bound: "length (sharedMessage r) < 2 ^ 31" and count: "pending r < 2 ^ 31"
  shows "broadcast r =
     Inr (concat (map (\<lambda>s. if s \<in> fst ` set (uniqueSenders r) \<and> s \<notin> reached r
                             then [(s, SendPrepared (sharedMessage r))] else due r s) (sockets r)),
          r\<lparr>batched := 0, uniqueSenders := [], sharedMessage := []\<rparr>)"
proof -
  let ?sm = "sharedMessage r"
  let ?ums = "map (\<lambda>(s, R). (s, without_gaps ?sm R)) (uniqueSenders r)"
  have keys_eq: "map fst ?ums = map fst (uniqueSenders r)" by (simp add: comp_def case_prod_unfold)
  from inv have keys: "sorted_wrt (<) (map fst ?ums)" by (simp only: keys_eq gaps_inv_def)
  have lookup: "map_of ?ums s = map_option (without_gaps ?sm) (map_of (uniqueSenders r) s)" for s
    by (simp add: map_of_map)
  have M: "set (takeWhile (\<lambda>k. k \<in> set (sockets r)) (drop 0 (map fst ?ums))) = reached r"
    by (simp only: keys_eq reached_def drop_0)
  have sub: "reached r \<subseteq> fst ` set (uniqueSenders r)"
    unfolding reached_def using set_takeWhileD by fastforce
  have each: "unique_or_prepared ?ums ?sm (reached r) s =
      (if s \<in> fst ` set (uniqueSenders r) \<and> s \<notin> reached r
       then [(s, SendPrepared ?sm)] else due r s)" for s
  proof (cases "s \<in> reached r")
    case True
    with sub have "s \<in> fst ` set (uniqueSenders r)" by auto
    then obtain R where "map_of (uniqueSenders r) s = Some R"
      by (metis domD dom_map_of_conv_image_fst)
    with True show ?thesis by (simp add: unique_or_prepared_def due_def lookup)
  next
    case False
    show ?thesis
    proof (cases "s \<in> fst ` set (uniqueSenders r)")
      case True
      with False show ?thesis by (simp add: unique_or_prepared_def)
    next
      case False
      then have "map_of (uniqueSenders r) s = None" by (simp add: map_of_eq_None_iff)
      with False \<open>s \<notin> reached r\<close> show ?thesis by (simp add: unique_or_prepared_def due_def)
    qed
  qed
  from inv have "\<forall>(s, R) \<in> set (uniqueSenders r). R \<noteq> []" by (simp add: gaps_inv_def)
  from entries_le_pending [OF this] count have "length ?ums \<le> 2 ^ 31"
    by (simp add: pending_def)
  then have "send_loop ?ums ?sm 0 (sockets r) = merge_loop ?ums ?sm 0 (sockets r)"
    by (intro send_loop_merge_loop) simp_all
  with merge_loop_merge [OF keys ss, of ?sm 0]
  have "send_loop ?ums ?sm 0 (sockets r) =
      concat (map (unique_or_prepared ?ums ?sm (reached r)) (sockets r))"
    by (simp only: M)
  moreover have "unique_or_prepared ?ums ?sm (reached r) =
      (\<lambda>s. if s \<in> fst ` set (uniqueSenders r) \<and> s \<notin> reached r
           then [(s, SendPrepared ?sm)] else due r s)"
    by (rule ext) (rule each)
  ultimately show ?thesis using broadcast_ok [OF inv bound count] by (simp only:)
qed

lemma reached_all:
  "fst ` set (uniqueSenders r) \<subseteq> set (sockets r) \<Longrightarrow> reached r = fst ` set (uniqueSenders r)"
  unfolding reached_def
  by (subst takeWhile_eq_all_conv [THEN iffD2]) auto


subsection \<open>Passes of the event loop\<close>

lemma to_int_zero:
  assumes "0 \<le> x" and "x < 2 ^ 32" and "to_int x = 0"
  shows "x = 0"
proof (cases "x < 2 ^ 31")
  case True
  with assms(1) have "(x + 2 ^ 31) mod 2 ^ 32 = x + 2 ^ 31" by simp
  with assms(3) show ?thesis by (simp add: to_int_def)
next
  case False
  have "x + 2 ^ 31 = x - 2 ^ 31 + 2 ^ 32" by simp
  then have "(x + 2 ^ 31) mod 2 ^ 32 = (x - 2 ^ 31 + 2 ^ 32) mod 2 ^ 32"
    by (rule arg_cong)
  also have "\<dots> = (x - 2 ^ 31) mod 2 ^ 32" by (rule mod_add_self2)
  also from False assms(2) have "\<dots> = x - 2 ^ 31" by simp
  finally have "to_int x = x - 2 ^ 32" by (simp add: to_int_def)
  with assms(2,3) show ?thesis by simp
qed

lemma room_inv_batched:
  assumes "room_inv r" and "pending r < 2 ^ 32"
  shows "batched r \<noteq> 0 \<longleftrightarrow> uniqueSenders r \<noteq> []"
proof -
  from assms(1) have b: "batched r = to_int (int (pending r))"
    and ne: "\<forall>(s, R) \<in> set (uniqueSenders r). R \<noteq> []"
    by (simp_all add: room_inv_def gaps_inv_def)
  from pending_zero_iff [OF ne] have p: "pending r = 0 \<longleftrightarrow> uniqueSenders r = []"
    by (simp add: pending_def)
  show ?thesis
  proof
    assume nz: "batched r \<noteq> 0"
    have "pending r \<noteq> 0"
    proof
      assume "pending r = 0"
      with b have "batched r = 0" by (simp add: to_int_def)
      with nz show False by simp
    qed
    with p show "uniqueSenders r \<noteq> []" by simp
  next
    assume "uniqueSenders r \<noteq> []"
    with p have pos: "pending r \<noteq> 0" by simp
    show "batched r \<noteq> 0"
    proof
      assume "batched r = 0"
      with b have z: "to_int (int (pending r)) = 0" by simp
      from assms(2) have lt: "int (pending r) < 2 ^ 32" by simp
      have "0 \<le> int (pending r)" by simp
      from to_int_zero [OF this lt z] have "int (pending r) = 0" .
      with pos show False by simp
    qed
  qed
qed

lemma window_run_sockets_only:
  "window evs \<Longrightarrow> senders evs = {} \<Longrightarrow> sockets p = sockets r \<Longrightarrow>
   run r evs = Inr (sends, r') \<Longrightarrow> run p evs = Inr (sends, p\<lparr>sockets := sockets r'\<rparr>)"
proof (induction evs arbitrary: r p sends)
  case Nil
  then show ?case by simp
next
  case (Cons ev evs)
  then have w: "window_event ev" "window evs" by (simp_all add: window_Cons)
  show ?case
  proof (cases ev)
    case (AddSubscriber ws)
    from Cons.prems(4) AddSubscriber have run: "run (addSubscriber r ws) evs = Inr (sends, r')"
      by (auto split: sum.splits)
    from Cons.prems(2) AddSubscriber have q: "senders evs = {}" by simp
    from Cons.prems(3) have "sockets (addSubscriber p ws) = sockets (addSubscriber r ws)"
      by (simp add: addSubscriber_def)
    from Cons.IH [OF w(2) q this run] AddSubscriber show ?thesis
      by (simp add: addSubscriber_def)
  next
    case (Publish sender message)
    with Cons.prems(2) show ?thesis by simp
  qed (use w(1) in simp_all)
qed

text \<open>Publishing the empty message \<open>n + 1\<close> times.\<close>

lemma run_publish_empty:
  "run defaultRoom (replicate (Suc n) (Publish s [])) =
     Inr ([], \<lparr>uniqueSenders = [(s, replicate (Suc n) \<lparr>start = 0, length_gap = 0\<rparr>)],
               sharedMessage = [], sockets = [], gotPubsThisIteration = True,
               batched = to_int (int (Suc n))\<rparr>)"
proof (induction n)
  case 0
  show ?case
    by (simp add: defaultRoom_def publish_def to_int_def int_plus_def is_int_def)
next
  case (Suc n)
  let ?g = "\<lparr>start = 0, length_gap = 0\<rparr>"
  let ?r = "\<lparr>uniqueSenders = [(s, replicate (Suc n) ?g)],
             sharedMessage = [], sockets = [], gotPubsThisIteration = True,
             batched = to_int (int (Suc n))\<rparr>"
  have "replicate (Suc (Suc n)) (Publish s []) = replicate (Suc n) (Publish s []) @ [Publish s []]"
    by (simp add: replicate_append_same)
  then have "run defaultRoom (replicate (Suc (Suc n)) (Publish s [])) = Inr ([], publish ?r s [])"
    by (simp only: run_append Suc) simp
  moreover have "int_plus (to_int (int (Suc n))) 1 = to_int (int (Suc (Suc n)))"
    using int_plus_to_int [of "int (Suc n)"] by (simp add: add.commute)
  then have "publish ?r s [] =
      \<lparr>uniqueSenders = [(s, replicate (Suc (Suc n)) ?g)],
       sharedMessage = [], sockets = [], gotPubsThisIteration = True,
       batched = to_int (int (Suc (Suc n)))\<rparr>"
    by (simp add: publish_def to_int_def [of 0] replicate_append_same)
  ultimately show ?case by (simp only:)
qed

subsection \<open>The integers of a reachable room\<close>

lemma fields_are_ints_step:
  assumes "fields_are_ints r" and "step r ev = Inr (sends, r')"
  shows "fields_are_ints r'"
proof (cases ev)
  case (AddSubscriber ws)
  with assms(2) have "r' = addSubscriber r ws" by simp
  with assms(1) show ?thesis by (simp add: fields_are_ints_def addSubscriber_def)
next
  case (Publish sender message)
  let ?g = "\<lparr>start = to_int (int (length (sharedMessage r))),
             length_gap = to_int (int (length message))\<rparr>"
  have "is_int (start g) \<and> is_int (length_gap g)"
    if "(s, R) \<in> set (push_back_at (uniqueSenders r) sender ?g)" "g \<in> set R" for s R g
  proof -
    from assms(1) have old: "\<And>s R g. (s, R) \<in> set (uniqueSenders r) \<Longrightarrow> g \<in> set R \<Longrightarrow>
        is_int (start g) \<and> is_int (length_gap g)"
      by (auto simp: fields_are_ints_def)
    from entries_push_back_at [OF that(1)]
    consider "(s, R) \<in> set (uniqueSenders r)" | "R = [?g]"
      | R' where "(sender, R') \<in> set (uniqueSenders r)" "R = R' @ [?g]"
      by blast
    then show ?thesis
    proof cases
      case 1
      from old [OF 1 that(2)] show ?thesis .
    next
      case 2
      with that(2) show ?thesis by (simp add: is_int_to_int)
    next
      case 3
      with that(2) old [OF 3(1), of g] show ?thesis by (auto simp: is_int_to_int)
    qed
  qed
  moreover from assms(1) have "is_int (int_plus (batched r) 1)"
    by (simp add: fields_are_ints_def int_plus_def is_int_1 is_int_to_int)
  ultimately show ?thesis using assms(2) Publish
    by (auto simp: fields_are_ints_def publish_def Let_def)
next
  case Broadcast
  with assms(2) have "broadcast r = Inr (sends, r')" by simp
  from broadcast_room [OF this] show ?thesis by (simp add: fields_are_ints_def is_int_def)
next
  case PrepareCallback
  with assms(2) have "r' = prepare_callback r" by simp
  with assms(1) show ?thesis by (auto simp: fields_are_ints_def prepare_callback_def)
next
  case CheckCallback
  with assms(2) consider "r' = r" | "broadcast r = Inr (sends, r')"
    by (auto simp: check_callback_def split: if_splits)
  then show ?thesis
  proof cases
    case 1
    with assms(1) show ?thesis by simp
  next
    case 2
    from broadcast_room [OF this] show ?thesis by (simp add: fields_are_ints_def is_int_def)
  qed
qed

lemma fields_are_ints_run:
  "fields_are_ints r \<Longrightarrow> run r evs = Inr (sends, r') \<Longrightarrow> fields_are_ints r'"
proof (induction evs arbitrary: r sends)
  case Nil
  then show ?case by simp
next
  case (Cons ev evs)
  from Cons.prems(2) obtain s1 r1 s2 where st: "step r ev = Inr (s1, r1)"
    and rest: "run r1 evs = Inr (s2, r')"
    by (auto split: sum.splits prod.splits)
  from Cons.IH [OF fields_are_ints_step [OF Cons.prems(1) st] rest] show ?case .
qed

lemma reachable_fields_are_ints:
  "run defaultRoom evs = Inr (sends, r) \<Longrightarrow> fields_are_ints r"
  by (rule fields_are_ints_run) (simp_all add: fields_are_ints_def defaultRoom_def is_int_def)

section \<open>The claims\<close>

subsection \<open>Completeness of the verbatim message\<close>

text \<open>
  A window of \<open>2^31\<close> bytes cannot be broadcast: the length of the payload, stored in the
  \<open>int\<close> of its range, is \<open>-2^31\<close>, so \<open>lastStop\<close> is negative and the last \<open>substr\<close> throws.
\<close>

lemma broadcast_throws_at_2_31_bytes:
  "run defaultRoom [AddSubscriber 2, Publish 1 (replicate 2147483648 CHR ''a''), Broadcast] =
     Inl OutOfRange"
  by (simp add: defaultRoom_def addSubscriber_def publish_def to_int_def int_plus_def
      is_int_def broadcast_def uniqueMessage_def substr_def substr_from_def)

text \<open>
  C1. For every window (any sequence of \<open>addSubscriber\<close> and \<open>publish\<close> calls, begun in
  a room that holds no publication) the run succeeds, and the broadcast that ends it
  succeeds when the window has fewer than \<open>2^31\<close> publications and their payloads have
  fewer than \<open>2^31\<close> bytes together. Whatever the size of the window, the shared message
  is the concatenation of the published payloads in publish order, and whenever the
  broadcast returns, every socket without an entry in \<open>uniqueSenders\<close> has been sent
  exactly this message, prepared, once for each of its entries in \<open>sockets\<close>; no prepared
  send carries anything else.
\<close>

theorem verbatim_is_concatenation:
  assumes "window_start r0" and "window evs"
  shows "(\<exists>r. run r0 evs = Inr ([], r))
     \<and> (length (payloads evs) < 2 ^ 31 \<and> publications evs < 2 ^ 31 \<longrightarrow>
          (\<exists>r plan r'. run r0 evs = Inr ([], r) \<and> broadcast r = Inr (plan, r')))
     \<and> (run r0 evs = Inr (sends, r) \<and> broadcast r = Inr (plan, r') \<longrightarrow>
          sharedMessage r = payloads evs
          \<and> (s \<notin> fst ` set (uniqueSenders r) \<longrightarrow>
               filter (\<lambda>x. fst x = s) plan =
                 replicate (count_list (sockets r) s) (s, SendPrepared (payloads evs)))
          \<and> ((s, SendPrepared q) \<in> set plan \<longrightarrow> q = payloads evs))"
proof (intro conjI impI)
  from window_run_total [OF assms(2), of r0]
  show "\<exists>r. run r0 evs = Inr ([], r)" .
next
  assume bound: "length (payloads evs) < 2 ^ 31 \<and> publications evs < 2 ^ 31"
  from window_run_total [OF assms(2), of r0] obtain r1 where run: "run r0 evs = Inr ([], r1)" ..
  from window_run_gaps_inv [OF assms(2) run window_start_gaps_inv [OF assms(1)]]
  have inv: "gaps_inv r1" .
  from window_run_sharedMessage [OF assms(2) run] assms(1) bound
  have b: "length (sharedMessage r1) < 2 ^ 31" by (simp add: window_start_def)
  from window_run_pending [OF assms(2) run] assms(1) bound
  have c: "pending r1 < 2 ^ 31" by (simp add: window_start_def pending_def)
  from broadcast_ok [OF inv b c] run
  show "\<exists>r plan r'. run r0 evs = Inr ([], r) \<and> broadcast r = Inr (plan, r')" by blast
next
  assume a: "run r0 evs = Inr (sends, r) \<and> broadcast r = Inr (plan, r')"
  then have run: "run r0 evs = Inr (sends, r)" and bc: "broadcast r = Inr (plan, r')"
    by simp_all
  from window_run_sharedMessage [OF assms(2) run] assms(1)
  show sm: "sharedMessage r = payloads evs" by (simp add: window_start_def)
  {
    assume "s \<notin> fst ` set (uniqueSenders r)"
    from broadcast_listener [OF bc this] sm
    show "filter (\<lambda>x. fst x = s) plan =
            replicate (count_list (sockets r) s) (s, SendPrepared (payloads evs))"
      by simp
  }
  {
    assume "(s, SendPrepared q) \<in> set plan"
    with bc sm show "q = payloads evs"
      by (auto simp: broadcast_def split: sum.splits dest: send_loop_prepared)
  }
qed

text \<open>The scenario of the specification: sockets 1, 2, 3; 1 publishes \<open>hello\<close>, 2 publishes \<open>world\<close>.\<close>

theorem verbatim_is_concatenation_witness:
  "window_start defaultRoom
   \<and> window [AddSubscriber 3, AddSubscriber 1, AddSubscriber 2, Publish 1 ''hello'', Publish 2 ''world'']
   \<and> length (payloads [AddSubscriber 3, AddSubscriber 1, AddSubscriber 2, Publish 1 ''hello'', Publish 2 ''world'']) = 10
   \<and> publications [AddSubscriber 3, AddSubscriber 1, AddSubscriber 2, Publish 1 ''hello'', Publish 2 ''world''] = 2
   \<and> run defaultRoom [AddSubscriber 3, AddSubscriber 1, AddSubscriber 2, Publish 1 ''hello'', Publish 2 ''world''] =
       Inr ([], \<lparr>uniqueSenders = [(1, [\<lparr>start = 0, length_gap = 5\<rparr>]), (2, [\<lparr>start = 5, length_gap = 5\<rparr>])],
                 sharedMessage = ''helloworld'', sockets = [1, 2, 3],
                 gotPubsThisIteration = True, batched = 2\<rparr>)
   \<and> broadcast \<lparr>uniqueSenders = [(1, [\<lparr>start = 0, length_gap = 5\<rparr>]), (2, [\<lparr>start = 5, length_gap = 5\<rparr>])],
                 sharedMessage = ''helloworld'', sockets = [1, 2, 3],
                 gotPubsThisIteration = True, batched = 2\<rparr> =
       Inr ([(1, Send ''world''), (2, Send ''hello''), (3, SendPrepared ''helloworld'')],
            \<lparr>uniqueSenders = [], sharedMessage = [], sockets = [1, 2, 3],
              gotPubsThisIteration = True, batched = 0\<rparr>)
   \<and> filter (\<lambda>x. fst x = 3) [(1, Send ''world''), (2, Send ''hello''), (3::nat, SendPrepared ''helloworld'')] =
       replicate 1 (3, SendPrepared (payloads [Publish 1 ''hello'', Publish 2 ''world'']))"
proof -
  let ?evs = "[AddSubscriber 3, AddSubscriber 1, AddSubscriber 2, Publish 1 ''hello'', Publish 2 ''world'']"
  let ?r = "\<lparr>uniqueSenders = [(1, [\<lparr>start = 0, length_gap = 5\<rparr>]), (2, [\<lparr>start = 5, length_gap = 5\<rparr>])],
             sharedMessage = ''helloworld'', sockets = [1, 2, 3],
             gotPubsThisIteration = True, batched = 2\<rparr>"
  let ?plan = "[(1 :: nat, Send ''world''), (2, Send ''hello''), (3, SendPrepared ''helloworld'')]"
  let ?r' = "\<lparr>uniqueSenders = [], sharedMessage = [], sockets = [1, 2, 3],
              gotPubsThisIteration = True, batched = 0\<rparr>"
  have start: "window_start defaultRoom" by (simp add: window_start_def defaultRoom_def)
  have win: "window ?evs" by (simp add: window_def)
  have len: "length (payloads ?evs) = 10" by simp
  have cnt: "publications ?evs = 2" by simp
  note inst = verbatim_is_concatenation [OF start win, of "[]" ?r ?plan ?r' 3 "''helloworld''"]
  from inst len cnt obtain r plan r' where run0: "run defaultRoom ?evs = Inr ([], r)"
    and bc0: "broadcast r = Inr (plan, r')" by auto
  have run: "run defaultRoom ?evs = Inr ([], ?r)"
    by (simp add: defaultRoom_def addSubscriber_def publish_def to_int_def int_plus_def is_int_def)
  with run0 have r: "r = ?r" by simp
  have "broadcast ?r = Inr (?plan, ?r')"
    by (simp add: broadcast_def uniqueMessage_def substr_def substr_from_def to_int_def
        int_plus_def is_int_def)
  with bc0 r have bc: "broadcast ?r = Inr (?plan, ?r')" by simp
  have "3 \<notin> fst ` set (uniqueSenders ?r)" by simp
  with inst run bc have "filter (\<lambda>x. fst x = 3) ?plan =
      replicate (count_list (sockets ?r) 3) (3, SendPrepared (payloads ?evs))"
    by blast
  then have "filter (\<lambda>x. fst x = 3) ?plan =
      replicate 1 (3, SendPrepared (payloads [Publish 1 ''hello'', Publish 2 ''world'']))"
    by simp
  with start win len cnt run bc show ?thesis by (intro conjI)
qed

subsection \<open>Correctness of the exclusion\<close>

text \<open>
  C2, as stated, fails for a window of \<open>2^32\<close> bytes: socket 5 publishes \<open>a\<close>, then
  socket 6 publishes \<open>2^32 - 1\<close> bytes. The length of the second payload is stored in an
  \<open>int\<close> as \<open>-1\<close>, so for socket 6 the first loop takes the byte before its range, then
  sets \<open>lastStop\<close> to \<open>1 + (-1) = 0\<close> and appends the whole shared message: the message
  built for socket 6 is \<open>a\<close> followed by the shared message, not the shared message without
  the recorded range, which holds no position.
\<close>

theorem exclusion_wraps_counterexample:
  "run defaultRoom [Publish 5 ''a'', Publish 6 (replicate 4294967295 CHR ''b'')] =
     Inr ([], \<lparr>uniqueSenders = [(5, [\<lparr>start = 0, length_gap = 1\<rparr>]), (6, [\<lparr>start = 1, length_gap = - 1\<rparr>])],
               sharedMessage = ''a'' @ replicate 4294967295 CHR ''b'', sockets = [],
               gotPubsThisIteration = True, batched = 2\<rparr>)
   \<and> uniqueMessages (''a'' @ replicate 4294967295 CHR ''b'') 0
        [(5, [\<lparr>start = 0, length_gap = 1\<rparr>]), (6, [\<lparr>start = 1, length_gap = - 1\<rparr>])] =
       Inr [(5, replicate 4294967295 CHR ''b''),
            (6, ''a'' @ ''a'' @ replicate 4294967295 CHR ''b'')]
   \<and> without_gaps (''a'' @ replicate 4294967295 CHR ''b'') [\<lparr>start = 1, length_gap = - 1\<rparr>] =
       ''a'' @ replicate 4294967295 CHR ''b''
   \<and> \<not> exclusion_correct defaultRoom [Publish 5 ''a'', Publish 6 (replicate 4294967295 CHR ''b'')]"
proof -
  let ?evs = "[Publish 5 ''a'', Publish 6 (replicate 4294967295 CHR ''b'')]"
  let ?sm = "''a'' @ replicate 4294967295 CHR ''b''"
  let ?R = "[\<lparr>start = 1, length_gap = - 1\<rparr>]"
  let ?r = "\<lparr>uniqueSenders = [(5, [\<lparr>start = 0, length_gap = 1\<rparr>]), (6, ?R)],
             sharedMessage = ?sm, sockets = [],
             gotPubsThisIteration = True, batched = 2\<rparr>"
  let ?ums = "[(5 :: nat, replicate 4294967295 CHR ''b''), (6, ''a'' @ ?sm)]"
  have run: "run defaultRoom ?evs = Inr ([], ?r)"
    by (simp add: defaultRoom_def publish_def to_int_def int_plus_def is_int_def)
  have ums: "uniqueMessages ?sm 0 (uniqueSenders ?r) = Inr ?ums"
    by (simp add: uniqueMessage_def substr_def substr_from_def to_int_def int_plus_def is_int_def)
  have compl: "without_gaps ?sm ?R = ?sm"
    by (simp add: without_gaps_def in_gap_def nths_all)
  have "\<not> exclusion_correct defaultRoom ?evs"
  proof
    assume "exclusion_correct defaultRoom ?evs"
    then have all: "\<And>sends r ums s R.
        run defaultRoom ?evs = Inr (sends, r) \<Longrightarrow>
        uniqueMessages (sharedMessage r) 0 (uniqueSenders r) = Inr ums \<Longrightarrow>
        (s, R) \<in> set (uniqueSenders r) \<Longrightarrow>
        map_of ums s = Some (without_gaps (sharedMessage r) R)"
      unfolding exclusion_correct_def by blast
    have entry: "(6, ?R) \<in> set (uniqueSenders ?r)" by simp
    from ums have ums': "uniqueMessages (sharedMessage ?r) 0 (uniqueSenders ?r) = Inr ?ums"
      by simp
    from all [OF run ums' entry] compl show False by simp
  qed
  with run ums compl show ?thesis by simp
qed

text \<open>
  C2, amended: after every window of fewer than \<open>2^31\<close> publications whose payloads
  have fewer than \<open>2^31\<close> bytes together, for every sender \<open>s\<close> with the entry \<open>R\<close> in
  \<open>uniqueSenders\<close>: \<open>R\<close> is the list of the ranges that the payloads of \<open>s\<close> occupy in
  the shared message; the first loop of \<open>broadcast\<close> succeeds and the message it builds
  for \<open>s\<close> is the concatenation of the segments before, between and after the ranges of
  \<open>R\<close>; this is the shared message with every range of \<open>R\<close> removed; and it is empty
  if and only if \<open>R\<close> covers the shared message.
\<close>

theorem unique_message_is_complement:
  assumes "window_start r0" and "window evs" and "run r0 evs = Inr (sends, r)"
    and "(s, R) \<in> set (uniqueSenders r)"
    and "length (payloads evs) < 2 ^ 31" and "publications evs < 2 ^ 31"
  shows "R = published_ranges s 0 evs
     \<and> (\<exists>ums r'. uniqueMessages (sharedMessage r) 0 (uniqueSenders r) = Inr ums
           \<and> broadcast r = Inr (send_loop ums (sharedMessage r) 0 (sockets r), r')
           \<and> map_of ums s = Some (complement_segments (sharedMessage r) R))
     \<and> complement_segments (sharedMessage r) R = without_gaps (sharedMessage r) R
     \<and> (complement_segments (sharedMessage r) R = [] \<longleftrightarrow> covers R (sharedMessage r))"
proof -
  let ?sm = "sharedMessage r"
  let ?ums = "map (\<lambda>(s, R). (s, without_gaps ?sm R)) (uniqueSenders r)"
  from window_run_sharedMessage [OF assms(2,3)] assms(1,5)
  have bound: "length ?sm < 2 ^ 31" by (simp add: window_start_def)
  from window_run_pending [OF assms(2,3)] assms(1,6)
  have count: "pending r < 2 ^ 31" by (simp add: window_start_def pending_def)
  from window_run_gaps_inv [OF assms(2,3) window_start_gaps_inv [OF assms(1)]]
  have inv: "gaps_inv r" .
  with assms(4) bound have R: "R \<noteq> []" "gaps_ok 0 R (int (length ?sm))"
    by (auto simp: gaps_inv_def)
  from window_lookup [OF assms(1-3) bound]
  have lookup: "map_of (uniqueSenders r) s =
      (if s \<in> senders evs then Some (published_ranges s 0 evs) else None)" .
  from window_senders [OF assms(1-3)] have dist: "distinct (map fst (uniqueSenders r))" by simp
  from dist assms(4) have entry: "map_of (uniqueSenders r) s = Some R" by simp
  with lookup have ranges: "R = published_ranges s 0 evs" by (simp split: if_splits)
  have compl: "complement_segments ?sm R = without_gaps ?sm R"
    using complement_segments_tail [OF R(1)] tail_segments_without_gaps [OF R(2)] by simp
  from broadcast_ok [OF inv bound count]
  have bc: "broadcast r = Inr (send_loop ?ums ?sm 0 (sockets r),
      r\<lparr>batched := 0, uniqueSenders := [], sharedMessage := []\<rparr>)" .
  from uniqueMessages_room [OF inv bound count]
  have ums: "uniqueMessages ?sm 0 (uniqueSenders r) = Inr ?ums" .
  have "map_of ?ums s = map_option (without_gaps ?sm) (map_of (uniqueSenders r) s)"
    by (simp add: map_of_map)
  with entry compl have "map_of ?ums s = Some (complement_segments ?sm R)" by simp
  with ums bc
  have "\<exists>ums r'. uniqueMessages ?sm 0 (uniqueSenders r) = Inr ums
           \<and> broadcast r = Inr (send_loop ums ?sm 0 (sockets r), r')
           \<and> map_of ums s = Some (complement_segments ?sm R)"
    by blast
  with ranges compl without_gaps_empty_iff [of ?sm R] show ?thesis by simp
qed

text \<open>Socket 1 publishes \<open>he\<close> and \<open>llo\<close> around the \<open>world\<close> of socket 2.\<close>

theorem unique_message_is_complement_witness:
  "window_start defaultRoom
   \<and> window [AddSubscriber 1, Publish 1 ''he'', Publish 2 ''world'', Publish 1 ''llo'']
   \<and> length (payloads [AddSubscriber 1, Publish 1 ''he'', Publish 2 ''world'', Publish 1 ''llo'']) = 10
   \<and> publications [AddSubscriber 1, Publish 1 ''he'', Publish 2 ''world'', Publish 1 ''llo''] = 3
   \<and> run defaultRoom [AddSubscriber 1, Publish 1 ''he'', Publish 2 ''world'', Publish 1 ''llo''] =
       Inr ([], \<lparr>uniqueSenders = [(1, [\<lparr>start = 0, length_gap = 2\<rparr>, \<lparr>start = 7, length_gap = 3\<rparr>]),
                                  (2, [\<lparr>start = 2, length_gap = 5\<rparr>])],
                 sharedMessage = ''heworldllo'', sockets = [1],
                 gotPubsThisIteration = True, batched = 3\<rparr>)
   \<and> uniqueMessages ''heworldllo'' 0
        [(1, [\<lparr>start = 0, length_gap = 2\<rparr>, \<lparr>start = 7, length_gap = 3\<rparr>]),
         (2, [\<lparr>start = 2, length_gap = 5\<rparr>])] = Inr [(1, ''world''), (2, ''hello'')]
   \<and> complement_segments ''heworldllo'' [\<lparr>start = 0, length_gap = 2\<rparr>, \<lparr>start = 7, length_gap = 3\<rparr>] = ''world''
   \<and> without_gaps ''heworldllo'' [\<lparr>start = 0, length_gap = 2\<rparr>, \<lparr>start = 7, length_gap = 3\<rparr>] = ''world''
   \<and> \<not> covers [\<lparr>start = 0, length_gap = 2\<rparr>, \<lparr>start = 7, length_gap = 3\<rparr>] ''heworldllo''"
proof -
  let ?evs = "[AddSubscriber 1, Publish 1 ''he'', Publish 2 ''world'', Publish 1 ''llo'']"
  let ?R = "[\<lparr>start = 0, length_gap = 2\<rparr>, \<lparr>start = 7, length_gap = 3\<rparr>]"
  let ?r = "\<lparr>uniqueSenders = [(1, ?R), (2, [\<lparr>start = 2, length_gap = 5\<rparr>])],
             sharedMessage = ''heworldllo'', sockets = [1],
             gotPubsThisIteration = True, batched = 3\<rparr>"
  have start: "window_start defaultRoom" by (simp add: window_start_def defaultRoom_def)
  have win: "window ?evs" by (simp add: window_def)
  have len: "length (payloads ?evs) = 10" by simp
  then have bound: "length (payloads ?evs) < 2 ^ 31" by simp
  have cnt: "publications ?evs = 3" by simp
  then have count: "publications ?evs < 2 ^ 31" by simp
  have run: "run defaultRoom ?evs = Inr ([], ?r)"
    by (simp add: defaultRoom_def addSubscriber_def publish_def to_int_def int_plus_def is_int_def)
  have entry: "(1, ?R) \<in> set (uniqueSenders ?r)" by simp
  have ums: "uniqueMessages ''heworldllo'' 0 (uniqueSenders ?r) = Inr [(1, ''world''), (2, ''hello'')]"
    by (simp add: uniqueMessage_def substr_def substr_from_def to_int_def int_plus_def
        int_minus_def is_int_def)
  have compl: "complement_segments ''heworldllo'' ?R = ''world''"
    by (simp add: complement_segments_def segment_def)
  from unique_message_is_complement [OF start win run entry bound count] compl
  have "without_gaps ''heworldllo'' ?R = ''world''" "\<not> covers ?R ''heworldllo''"
    by simp_all
  with start win len cnt run ums compl show ?thesis by simp
qed

subsection \<open>No self-echo\<close>

text \<open>
  C3, as stated, fails for a subscriber list that lacks a sender: socket 2 subscribes,
  socket 1 and then socket 2 publish. The index \<open>j\<close> stays at the entry of socket 1,
  which is no subscriber, and socket 2 is sent the whole shared message, its own
  byte included.
\<close>

theorem self_echo_counterexample:
  "run defaultRoom [AddSubscriber 2, Publish 1 ''a'', Publish 2 ''b''] =
     Inr ([], \<lparr>uniqueSenders = [(1, [\<lparr>start = 0, length_gap = 1\<rparr>]), (2, [\<lparr>start = 1, length_gap = 1\<rparr>])],
               sharedMessage = ''ab'', sockets = [2], gotPubsThisIteration = True, batched = 2\<rparr>)
   \<and> broadcast \<lparr>uniqueSenders = [(1, [\<lparr>start = 0, length_gap = 1\<rparr>]), (2, [\<lparr>start = 1, length_gap = 1\<rparr>])],
                  sharedMessage = ''ab'', sockets = [2], gotPubsThisIteration = True, batched = 2\<rparr> =
       Inr ([(2, SendPrepared ''ab'')],
            \<lparr>uniqueSenders = [], sharedMessage = [], sockets = [2],
              gotPubsThisIteration = True, batched = 0\<rparr>)
   \<and> published_ranges 2 0 [AddSubscriber 2, Publish 1 ''a'', Publish 2 ''b''] =
       [\<lparr>start = 1, length_gap = 1\<rparr>]
   \<and> \<not> self_echo_free ''ab'' [\<lparr>start = 1, length_gap = 1\<rparr>] ''ab''
   \<and> \<not> no_self_echo defaultRoom [AddSubscriber 2, Publish 1 ''a'', Publish 2 ''b'']"
proof -
  let ?evs = "[AddSubscriber 2, Publish 1 ''a'', Publish 2 ''b'']"
  let ?r = "\<lparr>uniqueSenders = [(1, [\<lparr>start = 0, length_gap = 1\<rparr>]), (2, [\<lparr>start = 1, length_gap = 1\<rparr>])],
             sharedMessage = ''ab'', sockets = [2], gotPubsThisIteration = True, batched = 2\<rparr>"
  let ?r' = "\<lparr>uniqueSenders = [], sharedMessage = [], sockets = [2],
              gotPubsThisIteration = True, batched = 0\<rparr>"
  have run: "run defaultRoom ?evs = Inr ([], ?r)"
    by (simp add: defaultRoom_def addSubscriber_def publish_def to_int_def int_plus_def is_int_def)
  have bc: "broadcast ?r = Inr ([(2, SendPrepared ''ab'')], ?r')"
    by (simp add: broadcast_def uniqueMessage_def substr_def substr_from_def to_int_def int_plus_def
        int_minus_def is_int_def)
  have ranges: "published_ranges 2 0 ?evs = [\<lparr>start = 1, length_gap = 1\<rparr>]" by simp
  have echo: "\<not> self_echo_free ''ab'' [\<lparr>start = 1, length_gap = 1\<rparr>] ''ab''"
  proof
    assume "self_echo_free ''ab'' [\<lparr>start = 1, length_gap = 1\<rparr>] ''ab''"
    then obtain I where I: "''ab'' = nths ''ab'' I" "\<forall>i\<in>I. \<not> in_gap \<lparr>start = 1, length_gap = 1\<rparr> i"
      by (auto simp: self_echo_free_def)
    from I(2) have "1 \<notin> I" by (auto simp: in_gap_def)
    with I(1) show False by (simp add: nths_Cons split: if_splits)
  qed
  have "\<not> no_self_echo defaultRoom ?evs"
  proof
    assume "no_self_echo defaultRoom ?evs"
    with run bc have "self_echo_free (sharedMessage ?r) (published_ranges 2 0 ?evs)
        (payload (SendPrepared ''ab''))"
      unfolding no_self_echo_def by (metis list.set_intros(1))
    with echo show False by simp
  qed
  with run bc ranges echo show ?thesis by (intro conjI)
qed

text \<open>
  A duplicate in the subscriber list has the same effect: the first entry of socket 1
  takes its unique message (here empty, so nothing is sent), the second is sent the
  shared message.
\<close>

lemma duplicate_subscriber_echo:
  "run defaultRoom [AddSubscriber 1, AddSubscriber 1, Publish 1 ''a'', Broadcast] =
     Inr ([(1, SendPrepared ''a'')],
          \<lparr>uniqueSenders = [], sharedMessage = [], sockets = [1, 1],
            gotPubsThisIteration = True, batched = 0\<rparr>)"
  by (simp add: defaultRoom_def addSubscriber_def publish_def broadcast_def
      uniqueMessage_def substr_def substr_from_def to_int_def int_plus_def is_int_def)

text \<open>
  A window of more than \<open>2^32\<close> bytes echoes even when every sender is subscribed once:
  after socket 1 has published \<open>2^32\<close> bytes, the range of socket 1 has the length 0 and
  the range of socket 2 starts at 0, so both sockets are sent bytes of their own.
\<close>

lemma self_echo_after_wrap:
  "run defaultRoom [AddSubscriber 1, AddSubscriber 2,
       Publish 1 (replicate 4294967296 CHR ''a''), Publish 2 ''hello'', Broadcast] =
     Inr ([(1, Send (replicate 4294967296 CHR ''a'' @ ''hello'')),
           (2, Send (replicate 4294967291 CHR ''a'' @ ''hello''))],
          \<lparr>uniqueSenders = [], sharedMessage = [], sockets = [1, 2],
            gotPubsThisIteration = True, batched = 0\<rparr>)"
  by (simp add: defaultRoom_def addSubscriber_def publish_def broadcast_def
      uniqueMessage_def substr_def substr_from_def to_int_def int_plus_def is_int_def)

text \<open>
  C3, amended: for every window of fewer than \<open>2^31\<close> publications whose payloads
  have fewer than \<open>2^31\<close> bytes together, begun in a room that holds no publication and
  whose subscriber list is sorted (as \<open>addSubscriber\<close> leaves it), and every subscriber
  list that has no duplicate and holds every sender of the window, the broadcast succeeds
  and none of its sends holds a byte of a range that its recipient published in the
  window.
\<close>

theorem no_self_echo_when_senders_subscribed:
  assumes "window_start r0" and "sorted (sockets r0)" and "window evs"
    and "run r0 evs = Inr (sends, r)" and "distinct (sockets r)"
    and "senders evs \<subseteq> set (sockets r)"
    and "length (payloads evs) < 2 ^ 31" and "publications evs < 2 ^ 31"
  shows "no_self_echo r0 evs \<and> (\<exists>plan r'. broadcast r = Inr (plan, r'))"
proof -
  let ?sm = "sharedMessage r"
  from window_run_sharedMessage [OF assms(3,4)] assms(1,7)
  have bound: "length ?sm < 2 ^ 31" by (simp add: window_start_def)
  from window_run_pending [OF assms(3,4)] assms(1,8)
  have count: "pending r < 2 ^ 31" by (simp add: window_start_def pending_def)
  from window_run_gaps_inv [OF assms(3,4) window_start_gaps_inv [OF assms(1)]]
  have inv: "gaps_inv r" .
  from window_run_sockets [OF assms(3,4,2)] assms(5)
  have ss: "sorted_wrt (<) (sockets r)" by (simp add: strict_sorted_iff)
  note look = window_lookup [OF assms(1,3,4) bound]
  from window_senders(1) [OF assms(1,3,4)] assms(6)
  have "reached r = fst ` set (uniqueSenders r)" by (simp add: reached_all)
  with broadcast_merge [OF inv ss bound count]
  have bc: "broadcast r = Inr (concat (map (due r) (sockets r)),
               r\<lparr>batched := 0, uniqueSenders := [], sharedMessage := []\<rparr>)"
    by simp
  have "self_echo_free ?sm (published_ranges s 0 evs) (payload a)"
    if "(s, a) \<in> set (concat (map (due r) (sockets r)))" for s a
  proof -
    from that obtain t where "(s, a) \<in> set (due r t)" by auto
    then show ?thesis
      using look [of t] published_ranges_Nil_iff [of t 0 evs]
      by (auto simp: due_def self_echo_free_without_gaps self_echo_free_no_ranges
          split: if_splits option.splits)
  qed
  with bc assms(4) show ?thesis
    unfolding no_self_echo_def by auto
qed

theorem no_self_echo_when_senders_subscribed_witness:
  "window_start defaultRoom \<and> sorted (sockets defaultRoom)
   \<and> window [AddSubscriber 3, AddSubscriber 1, AddSubscriber 2, Publish 2 ''he'', Publish 1 ''world'', Publish 2 ''llo'']
   \<and> run defaultRoom [AddSubscriber 3, AddSubscriber 1, AddSubscriber 2, Publish 2 ''he'', Publish 1 ''world'', Publish 2 ''llo''] =
       Inr ([], \<lparr>uniqueSenders = [(1, [\<lparr>start = 2, length_gap = 5\<rparr>]),
                                  (2, [\<lparr>start = 0, length_gap = 2\<rparr>, \<lparr>start = 7, length_gap = 3\<rparr>])],
                 sharedMessage = ''heworldllo'', sockets = [1, 2, 3],
                 gotPubsThisIteration = True, batched = 3\<rparr>)
   \<and> distinct [1, 2, 3 :: nat]
   \<and> length (payloads [AddSubscriber 3, AddSubscriber 1, AddSubscriber 2, Publish 2 ''he'', Publish 1 ''world'', Publish 2 ''llo'']) = 10
   \<and> publications [AddSubscriber 3, AddSubscriber 1, AddSubscriber 2, Publish 2 ''he'', Publish 1 ''world'', Publish 2 ''llo''] = 3
   \<and> senders [AddSubscriber 3, AddSubscriber 1, AddSubscriber 2, Publish 2 ''he'', Publish 1 ''world'', Publish 2 ''llo''] = {1, 2}
   \<and> no_self_echo defaultRoom [AddSubscriber 3, AddSubscriber 1, AddSubscriber 2, Publish 2 ''he'', Publish 1 ''world'', Publish 2 ''llo'']"
proof -
  let ?evs = "[AddSubscriber 3, AddSubscriber 1, AddSubscriber 2, Publish 2 ''he'', Publish 1 ''world'', Publish 2 ''llo'']"
  let ?r = "\<lparr>uniqueSenders = [(1, [\<lparr>start = 2, length_gap = 5\<rparr>]),
                              (2, [\<lparr>start = 0, length_gap = 2\<rparr>, \<lparr>start = 7, length_gap = 3\<rparr>])],
             sharedMessage = ''heworldllo'', sockets = [1, 2, 3],
             gotPubsThisIteration = True, batched = 3\<rparr>"
  have start: "window_start defaultRoom" by (simp add: window_start_def defaultRoom_def)
  have sorted: "sorted (sockets defaultRoom)" by (simp add: defaultRoom_def)
  have win: "window ?evs" by (simp add: window_def)
  have run: "run defaultRoom ?evs = Inr ([], ?r)"
    by (simp add: defaultRoom_def addSubscriber_def publish_def to_int_def int_plus_def is_int_def)
  have dist: "distinct (sockets ?r)" by simp
  have snd: "senders ?evs = {1, 2}" by auto
  then have sub: "senders ?evs \<subseteq> set (sockets ?r)" by simp
  have len: "length (payloads ?evs) = 10" by simp
  then have bound: "length (payloads ?evs) < 2 ^ 31" by simp
  have cnt: "publications ?evs = 3" by simp
  then have count: "publications ?evs < 2 ^ 31" by simp
  from no_self_echo_when_senders_subscribed [OF start sorted win run dist sub bound count]
  have "no_self_echo defaultRoom ?evs" by simp
  with start sorted win run snd len cnt show ?thesis by simp
qed


subsection \<open>Senders that are no subscribers\<close>

text \<open>
  C4, as stated, fails: sockets 1 and 3 subscribe, sockets 2 and 3 publish. Nothing
  is sent to socket 2, but socket 3, which sorts after it, is sent the shared
  message verbatim instead of the message without its own range.
\<close>

theorem absent_sender_counterexample:
  "run defaultRoom [AddSubscriber 1, AddSubscriber 3, Publish 2 ''x'', Publish 3 ''y''] =
     Inr ([], \<lparr>uniqueSenders = [(2, [\<lparr>start = 0, length_gap = 1\<rparr>]), (3, [\<lparr>start = 1, length_gap = 1\<rparr>])],
               sharedMessage = ''xy'', sockets = [1, 3], gotPubsThisIteration = True, batched = 2\<rparr>)
   \<and> broadcast \<lparr>uniqueSenders = [(2, [\<lparr>start = 0, length_gap = 1\<rparr>]), (3, [\<lparr>start = 1, length_gap = 1\<rparr>])],
                  sharedMessage = ''xy'', sockets = [1, 3], gotPubsThisIteration = True, batched = 2\<rparr> =
       Inr ([(1, SendPrepared ''xy''), (3, SendPrepared ''xy'')],
            \<lparr>uniqueSenders = [], sharedMessage = [], sockets = [1, 3],
              gotPubsThisIteration = True, batched = 0\<rparr>)
   \<and> due \<lparr>uniqueSenders = [(2, [\<lparr>start = 0, length_gap = 1\<rparr>]), (3, [\<lparr>start = 1, length_gap = 1\<rparr>])],
            sharedMessage = ''xy'', sockets = [1, 3], gotPubsThisIteration = True, batched = 2\<rparr> 3 =
       [(3, Send ''x'')]
   \<and> \<not> absent_sender_harmless
         \<lparr>uniqueSenders = [(2, [\<lparr>start = 0, length_gap = 1\<rparr>]), (3, [\<lparr>start = 1, length_gap = 1\<rparr>])],
          sharedMessage = ''xy'', sockets = [1, 3], gotPubsThisIteration = True, batched = 2\<rparr>"
proof -
  let ?r = "\<lparr>uniqueSenders = [(2, [\<lparr>start = 0, length_gap = 1\<rparr>]), (3, [\<lparr>start = 1, length_gap = 1\<rparr>])],
             sharedMessage = ''xy'', sockets = [1, 3], gotPubsThisIteration = True, batched = 2\<rparr>"
  let ?r' = "\<lparr>uniqueSenders = [], sharedMessage = [], sockets = [1, 3],
              gotPubsThisIteration = True, batched = 0\<rparr>"
  let ?plan = "[(1 :: nat, SendPrepared ''xy''), (3, SendPrepared ''xy'')]"
  have run: "run defaultRoom [AddSubscriber 1, AddSubscriber 3, Publish 2 ''x'', Publish 3 ''y''] = Inr ([], ?r)"
    by (simp add: defaultRoom_def addSubscriber_def publish_def to_int_def int_plus_def is_int_def)
  have bc: "broadcast ?r = Inr (?plan, ?r')"
    by (simp add: broadcast_def uniqueMessage_def substr_def substr_from_def to_int_def int_plus_def
        int_minus_def is_int_def)
  have "without_gaps ''xy'' [\<lparr>start = 1, length_gap = 1\<rparr>] = ''x''"
    by (simp add: without_gaps_def nths_Cons in_gap_def)
  then have due: "due ?r 3 = [(3, Send ''x'')]" by (simp add: due_def)
  then have ne: "filter (\<lambda>x. fst x = 3) ?plan \<noteq> due ?r 3" by simp
  have "\<not> absent_sender_harmless ?r"
  proof
    assume "absent_sender_harmless ?r"
    with bc have "\<forall>s\<in>set (sockets ?r). filter (\<lambda>x. fst x = s) ?plan = due ?r s"
      unfolding absent_sender_harmless_def by blast
    moreover have "3 \<in> set (sockets ?r)" by simp
    ultimately have "filter (\<lambda>x. fst x = 3) ?plan = due ?r 3" by (rule bspec)
    with ne show False by (rule notE)
  qed
  with run bc due show ?thesis by (intro conjI)
qed

text \<open>
  C4, amended: after every window begun in a room that holds no publication and whose
  subscriber list is sorted (as \<open>addSubscriber\<close> leaves it), the broadcast succeeds when
  the window is small, that is, has fewer than \<open>2^31\<close> publications with fewer than
  \<open>2^31\<close> bytes together, and whenever it returns: it has sent nothing to a socket that
  is no subscriber, so nothing to a sender that is none; every socket that published
  nothing, wherever it sorts, has been sent the shared message verbatim once for each of
  its entries in the subscriber list; and, for a small window and a subscriber list
  without duplicates, every subscribed sender that sorts before all senders that are no
  subscribers has been sent exactly what it is due: the shared message without its own
  ranges, when that is not empty. What is left out are the subscribed senders that sort
  after a sender that is no subscriber.
\<close>

theorem absent_sender_gets_no_send:
  assumes "window_start r0" and "sorted (sockets r0)" and "window evs"
    and "run r0 evs = Inr (sends, r)"
  shows "(length (payloads evs) < 2 ^ 31 \<and> publications evs < 2 ^ 31 \<longrightarrow>
          (\<exists>plan r'. broadcast r = Inr (plan, r')))
     \<and> (broadcast r = Inr (plan, r') \<longrightarrow>
          (k \<notin> set (sockets r) \<longrightarrow> k \<notin> fst ` set plan)
          \<and> (l \<notin> fst ` set (uniqueSenders r) \<longrightarrow>
               filter (\<lambda>x. fst x = l) plan =
                 replicate (count_list (sockets r) l) (l, SendPrepared (sharedMessage r)))
          \<and> (length (payloads evs) < 2 ^ 31 \<and> publications evs < 2 ^ 31
               \<and> distinct (sockets r) \<and> s \<in> set (sockets r)
               \<and> (\<forall>k'\<in>fst ` set (uniqueSenders r). k' \<notin> set (sockets r) \<longrightarrow> s < k') \<longrightarrow>
               filter (\<lambda>x. fst x = s) plan = due r s))"
proof (intro conjI impI)
  assume small: "length (payloads evs) < 2 ^ 31 \<and> publications evs < 2 ^ 31"
  with window_run_sharedMessage [OF assms(3,4)] assms(1)
  have bound: "length (sharedMessage r) < 2 ^ 31" by (simp add: window_start_def)
  from small window_run_pending [OF assms(3,4)] assms(1)
  have count: "pending r < 2 ^ 31" by (simp add: window_start_def pending_def)
  from window_run_gaps_inv [OF assms(3,4) window_start_gaps_inv [OF assms(1)]]
  have "gaps_inv r" .
  from broadcast_ok [OF this bound count] show "\<exists>plan r'. broadcast r = Inr (plan, r')" by blast
next
  assume bc: "broadcast r = Inr (plan, r')" and k: "k \<notin> set (sockets r)"
  from bc obtain ums where "plan = send_loop ums (sharedMessage r) 0 (sockets r)"
    by (auto simp: broadcast_def split: sum.splits)
  with send_loop_recipients [of ums "sharedMessage r" 0 "sockets r"] k
  show "k \<notin> fst ` set plan" by auto
next
  assume bc: "broadcast r = Inr (plan, r')" and l: "l \<notin> fst ` set (uniqueSenders r)"
  from broadcast_listener [OF bc l]
  show "filter (\<lambda>x. fst x = l) plan =
      replicate (count_list (sockets r) l) (l, SendPrepared (sharedMessage r))" .
next
  assume bc0: "broadcast r = Inr (plan, r')"
    and s0: "length (payloads evs) < 2 ^ 31 \<and> publications evs < 2 ^ 31
      \<and> distinct (sockets r) \<and> s \<in> set (sockets r)
      \<and> (\<forall>k'\<in>fst ` set (uniqueSenders r). k' \<notin> set (sockets r) \<longrightarrow> s < k')"
  then have dist: "distinct (sockets r)" and s: "s \<in> set (sockets r)"
    and before: "\<forall>k'\<in>fst ` set (uniqueSenders r). k' \<notin> set (sockets r) \<longrightarrow> s < k'"
    by simp_all
  from s0 window_run_sharedMessage [OF assms(3,4)] assms(1)
  have bound: "length (sharedMessage r) < 2 ^ 31" by (simp add: window_start_def)
  from s0 window_run_pending [OF assms(3,4)] assms(1)
  have count: "pending r < 2 ^ 31" by (simp add: window_start_def pending_def)
  define f where "f = (\<lambda>s. if s \<in> fst ` set (uniqueSenders r) \<and> s \<notin> reached r
                 then [(s, SendPrepared (sharedMessage r))] else due r s)"
  from window_run_gaps_inv [OF assms(3,4) window_start_gaps_inv [OF assms(1)]]
  have inv: "gaps_inv r" .
  then have keys: "sorted_wrt (<) (map fst (uniqueSenders r))" by (simp add: gaps_inv_def)
  from window_run_sockets [OF assms(3,4,2)] dist
  have ss: "sorted_wrt (<) (sockets r)" by (simp add: strict_sorted_iff)
  have bc: "broadcast r = Inr (concat (map f (sockets r)),
              r\<lparr>batched := 0, uniqueSenders := [], sharedMessage := []\<rparr>)"
    unfolding f_def by (rule broadcast_merge [OF inv ss bound count])
  have own: "fst ` set (f t) \<subseteq> {t}" for t
    by (auto simp: f_def due_def split: option.splits if_splits)
  have each: "filter (\<lambda>x. fst x = s) (concat (map f (sockets r))) =
      (if s \<in> set (sockets r) then f s else [])"
    using dist own by (rule filter_concat_map_distinct)
  have "f s = due r s"
  proof (cases "s \<in> fst ` set (uniqueSenders r)")
    case True
    have "s \<in> set (takeWhile (\<lambda>k. k \<in> set (sockets r)) (map fst (uniqueSenders r)))"
    proof (rule in_takeWhile_sorted [OF keys])
      show "s \<in> set (map fst (uniqueSenders r))" using True by simp
      show "\<forall>y\<in>set (map fst (uniqueSenders r)). y \<le> s \<longrightarrow> y \<in> set (sockets r)"
      proof (intro ballI impI)
        fix y assume "y \<in> set (map fst (uniqueSenders r))" "y \<le> s"
        then have "y \<in> fst ` set (uniqueSenders r)" "\<not> s < y" by simp_all
        with before show "y \<in> set (sockets r)" by blast
      qed
    qed
    then show ?thesis by (simp add: reached_def f_def)
  next
    case False
    then show ?thesis by (simp add: f_def)
  qed
  moreover from bc bc0 have "plan = concat (map f (sockets r))" by simp
  ultimately show "filter (\<lambda>x. fst x = s) plan = due r s" using each s by simp
qed

text \<open>
  Sockets 1 and 3 subscribe, sockets 1 and 2 publish: socket 2 is sent nothing, socket 3,
  which published nothing and sorts after socket 2, is sent the shared message, and
  socket 1 the message without its own range.
\<close>

theorem absent_sender_gets_no_send_witness:
  "window_start defaultRoom \<and> sorted (sockets defaultRoom)
   \<and> window [AddSubscriber 3, AddSubscriber 1, Publish 1 ''x'', Publish 2 ''y'']
   \<and> length (payloads [AddSubscriber 3, AddSubscriber 1, Publish 1 ''x'', Publish 2 ''y'']) = 2
   \<and> publications [AddSubscriber 3, AddSubscriber 1, Publish 1 ''x'', Publish 2 ''y''] = 2
   \<and> run defaultRoom [AddSubscriber 3, AddSubscriber 1, Publish 1 ''x'', Publish 2 ''y''] =
       Inr ([], \<lparr>uniqueSenders = [(1, [\<lparr>start = 0, length_gap = 1\<rparr>]), (2, [\<lparr>start = 1, length_gap = 1\<rparr>])],
                 sharedMessage = ''xy'', sockets = [1, 3], gotPubsThisIteration = True, batched = 2\<rparr>)
   \<and> broadcast \<lparr>uniqueSenders = [(1, [\<lparr>start = 0, length_gap = 1\<rparr>]), (2, [\<lparr>start = 1, length_gap = 1\<rparr>])],
                 sharedMessage = ''xy'', sockets = [1, 3], gotPubsThisIteration = True, batched = 2\<rparr> =
       Inr ([(1, Send ''y''), (3, SendPrepared ''xy'')],
            \<lparr>uniqueSenders = [], sharedMessage = [], sockets = [1, 3],
              gotPubsThisIteration = True, batched = 0\<rparr>)
   \<and> 2 \<notin> set [1, 3 :: nat]
   \<and> 2 \<notin> fst ` set [(1 :: nat, Send ''y''), (3, SendPrepared ''xy'')]
   \<and> 3 \<notin> fst ` set [(1 :: nat, [\<lparr>start = 0, length_gap = 1\<rparr>]), (2, [\<lparr>start = 1, length_gap = 1\<rparr>])]
   \<and> filter (\<lambda>x. fst x = 3) [(1 :: nat, Send ''y''), (3, SendPrepared ''xy'')] =
       [(3, SendPrepared ''xy'')]
   \<and> filter (\<lambda>x. fst x = 1) [(1 :: nat, Send ''y''), (3, SendPrepared ''xy'')] =
       due \<lparr>uniqueSenders = [(1, [\<lparr>start = 0, length_gap = 1\<rparr>]), (2, [\<lparr>start = 1, length_gap = 1\<rparr>])],
            sharedMessage = ''xy'', sockets = [1, 3], gotPubsThisIteration = True, batched = 2\<rparr> 1"
proof -
  let ?evs = "[AddSubscriber 3, AddSubscriber 1, Publish 1 ''x'', Publish 2 ''y'']"
  let ?r = "\<lparr>uniqueSenders = [(1, [\<lparr>start = 0, length_gap = 1\<rparr>]), (2, [\<lparr>start = 1, length_gap = 1\<rparr>])],
             sharedMessage = ''xy'', sockets = [1, 3], gotPubsThisIteration = True, batched = 2\<rparr>"
  let ?plan = "[(1 :: nat, Send ''y''), (3, SendPrepared ''xy'')]"
  let ?r' = "\<lparr>uniqueSenders = [], sharedMessage = [], sockets = [1, 3],
              gotPubsThisIteration = True, batched = 0\<rparr>"
  have start: "window_start defaultRoom" by (simp add: window_start_def defaultRoom_def)
  have sorted: "sorted (sockets defaultRoom)" by (simp add: defaultRoom_def)
  have win: "window ?evs" by (simp add: window_def)
  have len: "length (payloads ?evs) = 2" by simp
  have cnt: "publications ?evs = 2" by simp
  from len cnt have bound: "length (payloads ?evs) < 2 ^ 31 \<and> publications ?evs < 2 ^ 31" by simp
  have run: "run defaultRoom ?evs = Inr ([], ?r)"
    by (simp add: defaultRoom_def addSubscriber_def publish_def to_int_def int_plus_def is_int_def)
  note inst = absent_sender_gets_no_send [OF start sorted win run, of ?plan ?r' 2 3 1]
  from inst bound obtain plan r' where bc0: "broadcast ?r = Inr (plan, r')" by blast
  have "broadcast ?r = Inr (?plan, ?r')"
    by (simp add: broadcast_def uniqueMessage_def substr_def substr_from_def to_int_def int_plus_def
        int_minus_def is_int_def)
  with bc0 have bc: "broadcast ?r = Inr (?plan, ?r')" by simp
  have absent: "2 \<notin> set (sockets ?r)" by simp
  have listener: "3 \<notin> fst ` set (uniqueSenders ?r)" by simp
  have before: "length (payloads ?evs) < 2 ^ 31 \<and> publications ?evs < 2 ^ 31
      \<and> distinct (sockets ?r) \<and> 1 \<in> set (sockets ?r) \<and>
      (\<forall>k'\<in>fst ` set (uniqueSenders ?r). k' \<notin> set (sockets ?r) \<longrightarrow> 1 < k')" by simp
  from inst bc absent have a: "2 \<notin> fst ` set ?plan" by blast
  from inst bc listener have "filter (\<lambda>x. fst x = 3) ?plan =
      replicate (count_list (sockets ?r) 3) (3, SendPrepared (sharedMessage ?r))" by blast
  then have b: "filter (\<lambda>x. fst x = 3) ?plan = [(3, SendPrepared ''xy'')]" by simp
  from inst bc before have c: "filter (\<lambda>x. fst x = 1) ?plan = due ?r 1" by blast
  from start sorted win len cnt run bc a b c show ?thesis by simp
qed

subsection \<open>Subscribing twice\<close>

text \<open>
  C5, as stated, fails: subscribing socket 1 a second time changes the subscriber
  list, which then holds the socket twice.
\<close>

theorem addSubscriber_twice_counterexample:
  "sockets (addSubscriber (addSubscriber defaultRoom 1) 1) = [1, 1]
   \<and> addSubscriber (addSubscriber defaultRoom 1) 1 \<noteq> addSubscriber defaultRoom 1"
  by (simp add: addSubscriber_def defaultRoom_def)

text \<open>
  C5, amended: \<open>addSubscriber\<close> always adds one entry for the socket and keeps the list
  sorted; it changes nothing else of the room. A socket that is subscribed again is
  therefore listed once more, and a broadcast sends to it once per entry: when it has
  published nothing, the prepared message as many times as it is listed.
\<close>

theorem addSubscriber_adds_entry:
  "mset (sockets (addSubscriber r ws)) = add_mset ws (mset (sockets r))
   \<and> sorted (sockets (addSubscriber r ws))
   \<and> count_list (sockets (addSubscriber r ws)) ws = Suc (count_list (sockets r) ws)
   \<and> addSubscriber r ws = r\<lparr>sockets := sockets (addSubscriber r ws)\<rparr>
   \<and> (broadcast (addSubscriber r ws) = Inr (plan, r') \<and> ws \<notin> fst ` set (uniqueSenders r) \<longrightarrow>
        filter (\<lambda>x. fst x = ws) plan =
          replicate (Suc (count_list (sockets r) ws)) (ws, SendPrepared (sharedMessage r)))"
proof -
  have cnt: "count_list (sockets (addSubscriber r ws)) ws = Suc (count_list (sockets r) ws)"
  proof -
    have "count (mset (sort (sockets r @ [ws]))) ws = Suc (count (mset (sockets r)) ws)"
      by simp
    then show ?thesis by (simp only: addSubscriber_def count_mset) simp
  qed
  have "filter (\<lambda>x. fst x = ws) plan =
          replicate (Suc (count_list (sockets r) ws)) (ws, SendPrepared (sharedMessage r))"
    if "broadcast (addSubscriber r ws) = Inr (plan, r')" "ws \<notin> fst ` set (uniqueSenders r)"
    using broadcast_listener [OF that(1), of ws] that(2) cnt by (simp add: addSubscriber_def)
  with cnt show ?thesis by (simp add: addSubscriber_def)
qed

theorem addSubscriber_adds_entry_witness:
  "sockets (addSubscriber (addSubscriber defaultRoom 7) 7) = [7, 7]
   \<and> broadcast (addSubscriber (addSubscriber defaultRoom 7) 7) =
       Inr ([(7, SendPrepared []), (7, SendPrepared [])], addSubscriber (addSubscriber defaultRoom 7) 7)
   \<and> 7 \<notin> fst ` set (uniqueSenders (addSubscriber defaultRoom 7))
   \<and> filter (\<lambda>x. fst x = 7) [(7, SendPrepared []), (7::nat, SendPrepared [])] =
       replicate (Suc (count_list (sockets (addSubscriber defaultRoom 7)) 7))
         (7, SendPrepared (sharedMessage (addSubscriber defaultRoom 7)))"
  using addSubscriber_adds_entry [of "addSubscriber defaultRoom 7" 7
      "[(7, SendPrepared []), (7, SendPrepared [])]" "addSubscriber (addSubscriber defaultRoom 7) 7"]
  by (simp add: addSubscriber_def defaultRoom_def broadcast_def)


subsection \<open>Broadcasting with nothing pending\<close>

text \<open>
  C6, as stated, fails for \<open>broadcast\<close> itself: in a room with one subscriber and no
  publication it sends the empty prepared message to the subscriber.
\<close>

theorem broadcast_empty_window_counterexample:
  "broadcast (addSubscriber defaultRoom 1) =
     Inr ([(1, SendPrepared [])], addSubscriber defaultRoom 1)
   \<and> broadcast (addSubscriber defaultRoom 1) \<noteq> Inr ([], addSubscriber defaultRoom 1)"
  by (simp add: broadcast_def addSubscriber_def defaultRoom_def)

text \<open>
  C6, amended: the test for pending publications is made by the check callback, not by
  \<open>broadcast\<close>. In every room with \<open>batched = 0\<close> the check callback sends nothing and
  leaves the room unchanged. Every run of fewer than \<open>2^31\<close> publications that publishes
  fewer than \<open>2^31\<close> bytes in all succeeds. In every reachable room in which
  \<open>uniqueSenders\<close> is empty, \<open>batched\<close> is 0 and the shared message is empty too, and a
  direct call of \<open>broadcast\<close> leaves the room unchanged but sends the empty prepared
  message to every subscriber; conversely, in every reachable room that holds fewer than
  \<open>2^32\<close> publications, \<open>batched = 0\<close> only when \<open>uniqueSenders\<close> is empty.
\<close>

theorem check_callback_idle_noop:
  "(batched r0 = 0 \<longrightarrow> check_callback r0 = Inr ([], r0))
   \<and> (length (payloads evs) < 2 ^ 31 \<and> publications evs < 2 ^ 31 \<longrightarrow>
         (\<exists>sends r. run defaultRoom evs = Inr (sends, r)))
   \<and> (run defaultRoom evs = Inr (sends, r) \<longrightarrow>
         (uniqueSenders r = [] \<longrightarrow>
            batched r = 0 \<and> window_start r
            \<and> broadcast r = Inr (map (\<lambda>s. (s, SendPrepared [])) (sockets r), r))
         \<and> (batched r = 0 \<and> pending r < 2 ^ 32 \<longrightarrow> uniqueSenders r = []))"
proof (intro conjI impI)
  assume "batched r0 = 0"
  then show "check_callback r0 = Inr ([], r0)" by (simp add: check_callback_def)
next
  assume "length (payloads evs) < 2 ^ 31 \<and> publications evs < 2 ^ 31"
  then show "\<exists>sends r. run defaultRoom evs = Inr (sends, r)"
    by (simp add: run_total_defaultRoom)
next
  assume run: "run defaultRoom evs = Inr (sends, r)"
  from room_inv_run [OF room_inv_defaultRoom run] have inv: "room_inv r" .
  {
    assume empty: "uniqueSenders r = []"
    with inv show idle: "batched r = 0" by (simp add: room_inv_def pending_def to_int_def)
    from inv empty have sm: "sharedMessage r = []" by (simp add: room_inv_def)
    with empty show "window_start r" by (simp add: window_start_def)
    from empty sm idle show "broadcast r = Inr (map (\<lambda>s. (s, SendPrepared [])) (sockets r), r)"
      by (simp add: broadcast_def send_loop_no_senders)
  }
  {
    assume "batched r = 0 \<and> pending r < 2 ^ 32"
    with room_inv_batched [OF inv] show "uniqueSenders r = []" by simp
  }
qed

text \<open>A room with two subscribers after a window that a quiet pass has ended.\<close>

theorem check_callback_idle_noop_witness:
  "run defaultRoom [AddSubscriber 1, AddSubscriber 2, Publish 1 ''a'', PrepareCallback, CheckCallback] =
     Inr ([(2, SendPrepared ''a'')],
          \<lparr>uniqueSenders = [], sharedMessage = [], sockets = [1, 2],
            gotPubsThisIteration = False, batched = 0\<rparr>)
   \<and> length (payloads [AddSubscriber 1, AddSubscriber 2, Publish 1 ''a'', PrepareCallback, CheckCallback]) = 1
   \<and> publications [AddSubscriber 1, AddSubscriber 2, Publish 1 ''a'', PrepareCallback, CheckCallback] = 1
   \<and> batched \<lparr>uniqueSenders = [], sharedMessage = [], sockets = [1, 2],
               gotPubsThisIteration = False, batched = 0\<rparr> = 0
   \<and> pending \<lparr>uniqueSenders = [], sharedMessage = [], sockets = [1, 2],
               gotPubsThisIteration = False, batched = 0\<rparr> = 0
   \<and> check_callback \<lparr>uniqueSenders = [], sharedMessage = [], sockets = [1, 2],
                       gotPubsThisIteration = False, batched = 0\<rparr> =
       Inr ([], \<lparr>uniqueSenders = [], sharedMessage = [], sockets = [1, 2],
                 gotPubsThisIteration = False, batched = 0\<rparr>)
   \<and> broadcast \<lparr>uniqueSenders = [], sharedMessage = [], sockets = [1, 2],
                  gotPubsThisIteration = False, batched = 0\<rparr> =
       Inr ([(1, SendPrepared []), (2, SendPrepared [])],
            \<lparr>uniqueSenders = [], sharedMessage = [], sockets = [1, 2],
              gotPubsThisIteration = False, batched = 0\<rparr>)"
proof -
  let ?evs = "[AddSubscriber 1, AddSubscriber 2, Publish 1 ''a'', PrepareCallback, CheckCallback]"
  let ?r = "\<lparr>uniqueSenders = [], sharedMessage = [], sockets = [1, 2],
             gotPubsThisIteration = False, batched = 0\<rparr>"
  note inst = check_callback_idle_noop [of ?r ?evs "[(2, SendPrepared ''a'')]" ?r]
  have len: "length (payloads ?evs) = 1" by simp
  have cnt: "publications ?evs = 1" by simp
  with inst len obtain sends r where run0: "run defaultRoom ?evs = Inr (sends, r)" by auto
  have "run defaultRoom ?evs = Inr ([(2, SendPrepared ''a'')], ?r)"
    by (simp add: defaultRoom_def addSubscriber_def publish_def prepare_callback_def
        check_callback_def broadcast_def uniqueMessage_def substr_def substr_from_def
        to_int_def int_plus_def is_int_def)
  with run0 have run: "run defaultRoom ?evs = Inr ([(2, SendPrepared ''a'')], ?r)" by simp
  have idle: "batched ?r = 0" by simp
  have pend: "pending ?r = 0" by (simp add: pending_def)
  have empty: "uniqueSenders ?r = []" by simp
  from inst idle have cc: "check_callback ?r = Inr ([], ?r)" by blast
  from inst run empty
  have "broadcast ?r = Inr (map (\<lambda>s. (s, SendPrepared [])) (sockets ?r), ?r)" by blast
  then have bc: "broadcast ?r = Inr ([(1, SendPrepared []), (2, SendPrepared [])], ?r)" by simp
  from run len cnt idle pend cc bc show ?thesis by (intro conjI)
qed

subsection \<open>The ranges of a sender\<close>

text \<open>
  C7, as stated, fails on empty payloads: after socket 1 has published the empty
  message twice, its two ranges both start at 0, so the starts do not increase strictly.
\<close>

theorem ranges_strictly_sorted_counterexample:
  "run defaultRoom [Publish 1 [], Publish 1 []] =
     Inr ([], \<lparr>uniqueSenders = [(1, [\<lparr>start = 0, length_gap = 0\<rparr>, \<lparr>start = 0, length_gap = 0\<rparr>])],
               sharedMessage = [], sockets = [], gotPubsThisIteration = True, batched = 2\<rparr>)
   \<and> \<not> ranges_strictly_sorted
         \<lparr>uniqueSenders = [(1, [\<lparr>start = 0, length_gap = 0\<rparr>, \<lparr>start = 0, length_gap = 0\<rparr>])],
          sharedMessage = [], sockets = [], gotPubsThisIteration = True, batched = 2\<rparr>"
  by (simp add: defaultRoom_def publish_def ranges_strictly_sorted_def to_int_def int_plus_def
      is_int_def)

text \<open>
  A payload of \<open>2^31\<close> bytes is recorded with a negative length, so the bounds of the
  ranges hold only while the shared message is shorter than \<open>2^31\<close> bytes.
\<close>

lemma range_wraps_at_2_31_bytes:
  "uniqueSenders (publish defaultRoom 1 (replicate 2147483648 CHR ''a'')) =
     [(1, [\<lparr>start = 0, length_gap = - 2147483648\<rparr>])]
   \<and> \<not> ranges_sorted (publish defaultRoom 1 (replicate 2147483648 CHR ''a''))"
  by (simp add: defaultRoom_def publish_def to_int_def ranges_sorted_def in_bounds_def)

text \<open>
  C7, amended: every run from the initial room of fewer than \<open>2^31\<close> publications that
  publishes fewer than \<open>2^31\<close> bytes in all succeeds. In every reachable room whose shared
  message is shorter than \<open>2^31\<close> bytes the range list of every sender is sorted by
  start, weakly (strictly when none of its ranges is empty), every range begins at or
  after the end of the ranges before it, the ranges are pairwise disjoint, and every range
  has \<open>start \<ge> 0\<close>, \<open>length \<ge> 0\<close> and \<open>start + length\<close> at most the length of the
  shared message. Each \<open>publish\<close> that leaves the shared message shorter than \<open>2^31\<close>
  bytes preserves this: it pushes the range that starts at the length the shared message
  had before the append to the end of the sender's list.
\<close>

theorem reachable_ranges_sorted:
  "(length (payloads evs) < 2 ^ 31 \<and> publications evs < 2 ^ 31 \<longrightarrow>
      (\<exists>sends r. run defaultRoom evs = Inr (sends, r)))
   \<and> (run defaultRoom evs = Inr (sends, r) \<and> length (sharedMessage r) < 2 ^ 31 \<longrightarrow>
         ranges_sorted r)
   \<and> (ranges_sorted r0 \<and> length (sharedMessage r0 @ message) < 2 ^ 31 \<longrightarrow>
         ranges_sorted (publish r0 sender message))
   \<and> (sorted_wrt (<) (map fst (uniqueSenders r0)) \<and> length (sharedMessage r0 @ message) < 2 ^ 31 \<longrightarrow>
        map_of (uniqueSenders (publish r0 sender message)) sender =
          Some ((case map_of (uniqueSenders r0) sender of None \<Rightarrow> [] | Some R \<Rightarrow> R)
                @ [\<lparr>start = int (length (sharedMessage r0)), length_gap = int (length message)\<rparr>]))"
proof (intro conjI impI)
  assume "length (payloads evs) < 2 ^ 31 \<and> publications evs < 2 ^ 31"
  then show "\<exists>sends r. run defaultRoom evs = Inr (sends, r)"
    by (simp add: run_total_defaultRoom)
next
  assume "run defaultRoom evs = Inr (sends, r) \<and> length (sharedMessage r) < 2 ^ 31"
  then have run: "run defaultRoom evs = Inr (sends, r)"
    and bound: "length (sharedMessage r) < 2 ^ 31" by simp_all
  from room_inv_run [OF room_inv_defaultRoom run] have "gaps_inv r" by (simp add: room_inv_def)
  from gaps_inv_ranges_sorted [OF this bound] show "ranges_sorted r" .
next
  assume "ranges_sorted r0 \<and> length (sharedMessage r0 @ message) < 2 ^ 31"
  then show "ranges_sorted (publish r0 sender message)" by (simp add: ranges_sorted_publish)
next
  assume a: "sorted_wrt (<) (map fst (uniqueSenders r0)) \<and> length (sharedMessage r0 @ message) < 2 ^ 31"
  then have "length (sharedMessage r0) < 2 ^ 31" "length message < 2 ^ 31" by simp_all
  with a show "map_of (uniqueSenders (publish r0 sender message)) sender =
          Some ((case map_of (uniqueSenders r0) sender of None \<Rightarrow> [] | Some R \<Rightarrow> R)
                @ [\<lparr>start = int (length (sharedMessage r0)), length_gap = int (length message)\<rparr>])"
    by (simp add: publish_def Let_def map_of_push_back_at to_int_nat)
qed

text \<open>Socket 1 publishes \<open>ab\<close>, socket 2 publishes \<open>c\<close>, then socket 1 publishes \<open>de\<close>.\<close>

theorem reachable_ranges_sorted_witness:
  "run defaultRoom [AddSubscriber 1, Publish 1 ''ab'', Publish 2 ''c''] =
     Inr ([], \<lparr>uniqueSenders = [(1, [\<lparr>start = 0, length_gap = 2\<rparr>]), (2, [\<lparr>start = 2, length_gap = 1\<rparr>])],
               sharedMessage = ''abc'', sockets = [1], gotPubsThisIteration = True, batched = 2\<rparr>)
   \<and> length (payloads [AddSubscriber 1, Publish 1 ''ab'', Publish 2 ''c'']) = 3
   \<and> publications [AddSubscriber 1, Publish 1 ''ab'', Publish 2 ''c''] = 2
   \<and> length (''abc'' @ ''de'') = 5
   \<and> ranges_sorted \<lparr>uniqueSenders = [(1, [\<lparr>start = 0, length_gap = 2\<rparr>]), (2, [\<lparr>start = 2, length_gap = 1\<rparr>])],
                      sharedMessage = ''abc'', sockets = [1], gotPubsThisIteration = True, batched = 2\<rparr>
   \<and> sorted_wrt (<) (map fst [(1 :: nat, [\<lparr>start = 0, length_gap = 2\<rparr>]), (2, [\<lparr>start = 2, length_gap = 1\<rparr>])])
   \<and> ranges_sorted
         (publish \<lparr>uniqueSenders = [(1, [\<lparr>start = 0, length_gap = 2\<rparr>]), (2, [\<lparr>start = 2, length_gap = 1\<rparr>])],
                   sharedMessage = ''abc'', sockets = [1], gotPubsThisIteration = True, batched = 2\<rparr>
            1 ''de'')
   \<and> map_of (uniqueSenders
         (publish \<lparr>uniqueSenders = [(1, [\<lparr>start = 0, length_gap = 2\<rparr>]), (2, [\<lparr>start = 2, length_gap = 1\<rparr>])],
                   sharedMessage = ''abc'', sockets = [1], gotPubsThisIteration = True, batched = 2\<rparr>
            1 ''de'')) 1 =
       Some [\<lparr>start = 0, length_gap = 2\<rparr>, \<lparr>start = 3, length_gap = 2\<rparr>]"
proof -
  let ?evs = "[AddSubscriber 1, Publish 1 ''ab'', Publish 2 ''c'']"
  let ?r = "\<lparr>uniqueSenders = [(1, [\<lparr>start = 0, length_gap = 2\<rparr>]), (2, [\<lparr>start = 2, length_gap = 1\<rparr>])],
             sharedMessage = ''abc'', sockets = [1], gotPubsThisIteration = True, batched = 2\<rparr>"
  note inst = reachable_ranges_sorted [of ?evs "[]" ?r ?r "''de''" 1]
  have len: "length (payloads ?evs) = 3" by simp
  have cnt: "publications ?evs = 2" by simp
  with inst len obtain sends r where run0: "run defaultRoom ?evs = Inr (sends, r)" by auto
  have "run defaultRoom ?evs = Inr ([], ?r)"
    by (simp add: defaultRoom_def addSubscriber_def publish_def to_int_def int_plus_def is_int_def)
  with run0 have run: "run defaultRoom ?evs = Inr ([], ?r)" by simp
  have b1: "length (sharedMessage ?r) < 2 ^ 31" by simp
  have len2: "length (''abc'' @ ''de'') = 5" by simp
  have b2: "length (sharedMessage ?r @ ''de'') < 2 ^ 31" by simp
  have keys: "sorted_wrt (<) (map fst (uniqueSenders ?r))" by simp
  from inst run b1 have sorted: "ranges_sorted ?r" by blast
  with inst b2 have pub: "ranges_sorted (publish ?r 1 ''de'')" by blast
  from inst keys b2 have "map_of (uniqueSenders (publish ?r 1 ''de'')) 1 =
      Some ((case map_of (uniqueSenders ?r) 1 of None \<Rightarrow> [] | Some R \<Rightarrow> R)
            @ [\<lparr>start = int (length (sharedMessage ?r)), length_gap = int (length ''de'')\<rparr>])"
    by blast
  then have "map_of (uniqueSenders (publish ?r 1 ''de'')) 1 =
      Some [\<lparr>start = 0, length_gap = 2\<rparr>, \<lparr>start = 3, length_gap = 2\<rparr>]"
    by simp
  with run len cnt len2 sorted pub show ?thesis by simp
qed

subsection \<open>The window controller\<close>

text \<open>
  C8, as stated, fails after \<open>2^32\<close> publications in one window: the counter \<open>batched\<close>,
  an \<open>int\<close>, is 0 again while the room holds the publications. The prepare callback then
  does not clear \<open>gotPubsThisIteration\<close> and the check callback does not broadcast, so a
  pass in which no publication comes in leaves the room as it is: the window is not
  closed.
\<close>

theorem quiet_pass_stuck_counterexample:
  "run defaultRoom (replicate 4294967296 (Publish 1 [])) =
     Inr ([], \<lparr>uniqueSenders = [(1, replicate 4294967296 \<lparr>start = 0, length_gap = 0\<rparr>)],
               sharedMessage = [], sockets = [], gotPubsThisIteration = True, batched = 0\<rparr>)
   \<and> run \<lparr>uniqueSenders = [(1, replicate 4294967296 \<lparr>start = 0, length_gap = 0\<rparr>)],
           sharedMessage = [], sockets = [], gotPubsThisIteration = True, batched = 0\<rparr>
        [PrepareCallback, CheckCallback] =
       Inr ([], \<lparr>uniqueSenders = [(1, replicate 4294967296 \<lparr>start = 0, length_gap = 0\<rparr>)],
                 sharedMessage = [], sockets = [], gotPubsThisIteration = True, batched = 0\<rparr>)
   \<and> \<not> quiet_pass_closes
         \<lparr>uniqueSenders = [(1, replicate 4294967296 \<lparr>start = 0, length_gap = 0\<rparr>)],
          sharedMessage = [], sockets = [], gotPubsThisIteration = True, batched = 0\<rparr>"
proof -
  let ?r = "\<lparr>uniqueSenders = [(1, replicate 4294967296 \<lparr>start = 0, length_gap = 0\<rparr>)],
             sharedMessage = [], sockets = [], gotPubsThisIteration = True, batched = 0\<rparr>"
  have n: "Suc 4294967295 = 4294967296" by simp
  have "to_int (int (Suc 4294967295)) = 0" by (simp add: to_int_def)
  with run_publish_empty [of 4294967295 1]
  have run: "run defaultRoom (replicate 4294967296 (Publish 1 [])) = Inr ([], ?r)"
    by (simp only: n)
  have pass: "run ?r [PrepareCallback, CheckCallback] = Inr ([], ?r)"
    by (simp add: prepare_callback_def check_callback_def)
  have "uniqueSenders ?r \<noteq> []" by simp
  with pass have "\<not> quiet_pass_closes ?r" by (simp add: quiet_pass_closes_def)
  with run pass show ?thesis by (intro conjI)
qed

text \<open>
  C8, amended: in every reachable room that holds fewer than \<open>2^31\<close> publications and
  whose shared message is shorter than \<open>2^31\<close> bytes, \<open>batched\<close> is the number of
  publications that the room holds, so it is not 0 exactly when the room holds
  publications, and the check callback broadcasts and leaves the room idle
  (\<open>batched = 0\<close>, no publication held) if the room holds publications and none came in
  this iteration; otherwise it sends nothing and leaves the room as it is. So the callback
  changes the room exactly in the first case. Hence a pass of the two callbacks in which
  no publication comes in, whatever connections are subscribed meanwhile, ends the window
  of a room that holds publications with the broadcast of what the room holds; and a pass
  in which a publication comes in sends nothing and keeps the window open, the payloads
  appended.
\<close>

theorem quiet_pass_flushes:
  assumes "run defaultRoom evs = Inr (sends, r)" and "pending r < 2 ^ 31"
    and "length (sharedMessage r) < 2 ^ 31"
  shows "batched r = int (pending r)
     \<and> (batched r \<noteq> 0 \<longleftrightarrow> uniqueSenders r \<noteq> [])
     \<and> (batched r \<noteq> 0 \<and> \<not> gotPubsThisIteration r \<longrightarrow>
          (\<exists>plan r'. check_callback r = Inr (plan, r') \<and> broadcast r = Inr (plan, r')
             \<and> batched r' = 0 \<and> window_start r' \<and> r' \<noteq> r))
     \<and> (\<not> (batched r \<noteq> 0 \<and> \<not> gotPubsThisIteration r) \<longrightarrow> check_callback r = Inr ([], r))
     \<and> (batched r \<noteq> 0 \<and> window conns \<and> senders conns = {} \<longrightarrow>
          (\<exists>plan r1. run r conns = Inr ([], r1)
             \<and> broadcast r1 =
                 Inr (plan, r1\<lparr>batched := 0, uniqueSenders := [], sharedMessage := []\<rparr>)
             \<and> run r (PrepareCallback # conns @ [CheckCallback]) =
                 Inr (plan, r1\<lparr>gotPubsThisIteration := False, batched := 0,
                              uniqueSenders := [], sharedMessage := []\<rparr>)))
     \<and> (window pubs \<and> senders pubs \<noteq> {} \<longrightarrow>
          (\<exists>r'. run r (PrepareCallback # pubs @ [CheckCallback]) = Inr ([], r')
             \<and> uniqueSenders r' \<noteq> [] \<and> (pending r' < 2 ^ 32 \<longrightarrow> batched r' \<noteq> 0)
             \<and> sharedMessage r' = sharedMessage r @ payloads pubs))"
proof -
  from room_inv_run [OF room_inv_defaultRoom assms(1)] have inv: "room_inv r" .
  then have ginv: "gaps_inv r" and cnt: "batched r = to_int (int (pending r))"
    by (simp_all add: room_inv_def)
  from assms(2) have "pending r < 2 ^ 32" by simp
  note batching = room_inv_batched [OF inv this]
  let ?r' = "r\<lparr>batched := 0, uniqueSenders := [], sharedMessage := []\<rparr>"
  obtain plan where bc: "broadcast r = Inr (plan, ?r')"
    using broadcast_ok [OF ginv assms(3,2)] by blast
  have count: "batched r = int (pending r)"
    using cnt assms(2) by (simp add: to_int_nat)
  have flush: "\<exists>plan r'. check_callback r = Inr (plan, r') \<and> broadcast r = Inr (plan, r')
             \<and> batched r' = 0 \<and> window_start r' \<and> r' \<noteq> r"
    if "batched r \<noteq> 0 \<and> \<not> gotPubsThisIteration r"
  proof -
    from that have "batched ?r' \<noteq> batched r" by simp
    then have "?r' \<noteq> r" by metis
    with that bc show ?thesis by (simp add: check_callback_def window_start_def)
  qed
  have quiet: "check_callback r = Inr ([], r)"
    if "\<not> (batched r \<noteq> 0 \<and> \<not> gotPubsThisIteration r)"
    using that by (auto simp: check_callback_def)
  have pass: "\<exists>plan r1. run r conns = Inr ([], r1)
             \<and> broadcast r1 =
                 Inr (plan, r1\<lparr>batched := 0, uniqueSenders := [], sharedMessage := []\<rparr>)
             \<and> run r (PrepareCallback # conns @ [CheckCallback]) =
                 Inr (plan, r1\<lparr>gotPubsThisIteration := False, batched := 0,
                              uniqueSenders := [], sharedMessage := []\<rparr>)"
    if "batched r \<noteq> 0 \<and> window conns \<and> senders conns = {}"
  proof -
    from that have nz: "batched r \<noteq> 0" and w: "window conns" and q: "senders conns = {}"
      by simp_all
    let ?p = "r\<lparr>gotPubsThisIteration := False\<rparr>"
    from nz have prep: "prepare_callback r = ?p" by (simp add: prepare_callback_def)
    have subscribe: "addSubscriber x ws = x\<lparr>sockets := sort (sockets x @ [ws])\<rparr>" for x ws
      by (simp add: addSubscriber_def)
    from window_run_total [OF w, of r] obtain r1 where run1: "run r conns = Inr ([], r1)" ..
    from window_run_quiet [OF w q run1] have r1: "r1 = r\<lparr>sockets := sockets r1\<rparr>" .
    have "sockets ?p = sockets r" by simp
    from window_run_sockets_only [OF w q this run1]
    have runp: "run ?p conns = Inr ([], ?p\<lparr>sockets := sockets r1\<rparr>)" .
    have p1: "?p\<lparr>sockets := sockets r1\<rparr> = r1\<lparr>gotPubsThisIteration := False\<rparr>"
      by (subst (2) r1) simp
    from window_run_gaps_inv [OF w run1 ginv] have g1: "gaps_inv r1" .
    from window_run_sharedMessage [OF w run1] q assms(3)
    have b1: "length (sharedMessage r1) < 2 ^ 31"
      by (subst r1) simp
    from arg_cong [OF r1, of pending] assms(2) have c1: "pending r1 < 2 ^ 31"
      by (simp add: pending_def)
    note bc1 = broadcast_ok [OF g1 b1 c1]
    let ?q = "r1\<lparr>gotPubsThisIteration := False\<rparr>"
    from g1 have gq: "gaps_inv ?q" by (simp add: gaps_inv_def)
    from b1 have bq: "length (sharedMessage ?q) < 2 ^ 31" by simp
    from c1 have cq: "pending ?q < 2 ^ 31" by (simp add: pending_def)
    from arg_cong [OF r1, of batched] nz have "batched r1 \<noteq> 0" by simp
    then have "check_callback ?q = broadcast ?q" by (simp add: check_callback_def)
    with broadcast_ok [OF gq bq cq]
    have cc: "check_callback ?q =
        Inr (send_loop (map (\<lambda>(s, R). (s, without_gaps (sharedMessage r1) R)) (uniqueSenders r1))
               (sharedMessage r1) 0 (sockets r1),
             r1\<lparr>gotPubsThisIteration := False, batched := 0,
                uniqueSenders := [], sharedMessage := []\<rparr>)"
      by simp
    from runp p1 have "run ?p conns = Inr ([], ?q)" by simp
    with prep cc
    have "run r (PrepareCallback # conns @ [CheckCallback]) =
        Inr (send_loop (map (\<lambda>(s, R). (s, without_gaps (sharedMessage r1) R)) (uniqueSenders r1))
               (sharedMessage r1) 0 (sockets r1),
             r1\<lparr>gotPubsThisIteration := False, batched := 0,
                uniqueSenders := [], sharedMessage := []\<rparr>)"
      by (simp add: run_append)
    with run1 bc1 subscribe show ?thesis by blast
  qed
  have extend: "\<exists>r'. run r (PrepareCallback # pubs @ [CheckCallback]) = Inr ([], r')
             \<and> uniqueSenders r' \<noteq> [] \<and> (pending r' < 2 ^ 32 \<longrightarrow> batched r' \<noteq> 0)
             \<and> sharedMessage r' = sharedMessage r @ payloads pubs"
    if "window pubs \<and> senders pubs \<noteq> {}"
  proof -
    let ?p = "prepare_callback r"
    from that have w: "window pubs" and ne: "senders pubs \<noteq> {}" by simp_all
    from window_run_total [OF w, of ?p] obtain r1 where run1: "run ?p pubs = Inr ([], r1)" ..
    have pb: "sharedMessage ?p = sharedMessage r"
      by (simp add: prepare_callback_def)
    from window_run_busy [OF w run1] ne
    have r1: "gotPubsThisIteration r1" "uniqueSenders r1 \<noteq> []" by simp_all
    from window_run_sharedMessage [OF w run1] pb
    have sm: "sharedMessage r1 = sharedMessage r @ payloads pubs" by simp
    from r1 have cc: "check_callback r1 = Inr ([], r1)" by (simp add: check_callback_def)
    with run1 have run: "run r (PrepareCallback # pubs @ [CheckCallback]) = Inr ([], r1)"
      by (simp add: run_append)
    from assms(1) run have "run defaultRoom (evs @ PrepareCallback # pubs @ [CheckCallback]) =
        Inr (sends @ [], r1)"
      by (simp only: run_append [of defaultRoom evs] sum.case prod.case)
    from room_inv_run [OF room_inv_defaultRoom this] have "room_inv r1" .
    from room_inv_batched [OF this] r1(2)
    have "pending r1 < 2 ^ 32 \<longrightarrow> batched r1 \<noteq> 0" by simp
    with run r1 sm show ?thesis by blast
  qed
  from count batching flush quiet pass extend show ?thesis by blast
qed

text \<open>
  A room in which socket 1 has published and the prepare callback has run; and the same
  room before the prepare callback, where the publication counts for the iteration: a
  pass in which socket 3 connects ends its window, a pass in which socket 2 publishes
  does not.
\<close>

theorem quiet_pass_flushes_witness:
  "run defaultRoom [AddSubscriber 1, AddSubscriber 2, Publish 1 ''hi'', CheckCallback, PrepareCallback] =
     Inr ([], \<lparr>uniqueSenders = [(1, [\<lparr>start = 0, length_gap = 2\<rparr>])], sharedMessage = ''hi'',
               sockets = [1, 2], gotPubsThisIteration = False, batched = 1\<rparr>)
   \<and> check_callback \<lparr>uniqueSenders = [(1, [\<lparr>start = 0, length_gap = 2\<rparr>])], sharedMessage = ''hi'',
                       sockets = [1, 2], gotPubsThisIteration = False, batched = 1\<rparr> =
       Inr ([(2, SendPrepared ''hi'')],
            \<lparr>uniqueSenders = [], sharedMessage = [], sockets = [1, 2],
              gotPubsThisIteration = False, batched = 0\<rparr>)
   \<and> run defaultRoom [AddSubscriber 1, AddSubscriber 2, Publish 1 ''hi''] =
       Inr ([], \<lparr>uniqueSenders = [(1, [\<lparr>start = 0, length_gap = 2\<rparr>])], sharedMessage = ''hi'',
                 sockets = [1, 2], gotPubsThisIteration = True, batched = 1\<rparr>)
   \<and> pending \<lparr>uniqueSenders = [(1, [\<lparr>start = 0, length_gap = 2\<rparr>])], sharedMessage = ''hi'',
                sockets = [1, 2], gotPubsThisIteration = True, batched = 1\<rparr> = 1
   \<and> check_callback \<lparr>uniqueSenders = [(1, [\<lparr>start = 0, length_gap = 2\<rparr>])], sharedMessage = ''hi'',
                       sockets = [1, 2], gotPubsThisIteration = True, batched = 1\<rparr> =
       Inr ([], \<lparr>uniqueSenders = [(1, [\<lparr>start = 0, length_gap = 2\<rparr>])], sharedMessage = ''hi'',
                 sockets = [1, 2], gotPubsThisIteration = True, batched = 1\<rparr>)
   \<and> window [AddSubscriber 3] \<and> senders [AddSubscriber 3] = {}
   \<and> run \<lparr>uniqueSenders = [(1, [\<lparr>start = 0, length_gap = 2\<rparr>])], sharedMessage = ''hi'',
           sockets = [1, 2], gotPubsThisIteration = True, batched = 1\<rparr>
        (PrepareCallback # [AddSubscriber 3] @ [CheckCallback]) =
       Inr ([(2, SendPrepared ''hi''), (3, SendPrepared ''hi'')],
            \<lparr>uniqueSenders = [], sharedMessage = [], sockets = [1, 2, 3],
              gotPubsThisIteration = False, batched = 0\<rparr>)
   \<and> window [Publish 2 ''yo''] \<and> senders [Publish 2 ''yo''] \<noteq> {}
   \<and> (\<exists>r'. run \<lparr>uniqueSenders = [(1, [\<lparr>start = 0, length_gap = 2\<rparr>])], sharedMessage = ''hi'',
                    sockets = [1, 2], gotPubsThisIteration = True, batched = 1\<rparr>
                (PrepareCallback # [Publish 2 ''yo''] @ [CheckCallback]) = Inr ([], r')
         \<and> uniqueSenders r' \<noteq> []
         \<and> sharedMessage r' = ''hi'' @ payloads [Publish 2 ''yo''])"
proof -
  let ?evs = "[AddSubscriber 1, AddSubscriber 2, Publish 1 ''hi'']"
  let ?b = "\<lparr>uniqueSenders = [(1, [\<lparr>start = 0, length_gap = 2\<rparr>])], sharedMessage = ''hi'',
             sockets = [1, 2], gotPubsThisIteration = True, batched = 1\<rparr>"
  let ?q = "\<lparr>uniqueSenders = [(1, [\<lparr>start = 0, length_gap = 2\<rparr>])], sharedMessage = ''hi'',
             sockets = [1, 2], gotPubsThisIteration = False, batched = 1\<rparr>"
  let ?i = "\<lparr>uniqueSenders = [], sharedMessage = [], sockets = [1, 2],
             gotPubsThisIteration = False, batched = 0\<rparr>"
  let ?b3 = "\<lparr>uniqueSenders = [(1, [\<lparr>start = 0, length_gap = 2\<rparr>])], sharedMessage = ''hi'',
              sockets = [1, 2, 3], gotPubsThisIteration = True, batched = 1\<rparr>"
  let ?i3 = "\<lparr>uniqueSenders = [], sharedMessage = [], sockets = [1, 2, 3],
              gotPubsThisIteration = False, batched = 0\<rparr>"
  have run_b: "run defaultRoom ?evs = Inr ([], ?b)"
    by (simp add: defaultRoom_def addSubscriber_def publish_def to_int_def int_plus_def is_int_def)
  have run_q: "run defaultRoom (?evs @ [CheckCallback, PrepareCallback]) = Inr ([], ?q)"
    by (simp add: defaultRoom_def addSubscriber_def publish_def check_callback_def
        prepare_callback_def to_int_def int_plus_def is_int_def)
  have pend_b: "pending ?b = 1" by (simp add: pending_def)
  have pend: "pending ?b < 2 ^ 31" "pending ?q < 2 ^ 31" by (simp_all add: pending_def)
  have len: "length (sharedMessage ?b) < 2 ^ 31" "length (sharedMessage ?q) < 2 ^ 31"
    by simp_all
  have bc: "broadcast ?q = Inr ([(2, SendPrepared ''hi'')], ?i)"
    by (simp add: broadcast_def uniqueMessage_def substr_def substr_from_def to_int_def
        int_plus_def is_int_def)
  have quiet: "batched ?q \<noteq> 0 \<and> \<not> gotPubsThisIteration ?q" by simp
  have busy: "\<not> (batched ?b \<noteq> 0 \<and> \<not> gotPubsThisIteration ?b)" by simp
  have conns: "window [AddSubscriber 3]" "senders [AddSubscriber 3] = {}"
    by (simp_all add: window_def)
  have pubs: "window [Publish 2 ''yo'']" "senders [Publish 2 ''yo''] \<noteq> {}"
    by (simp_all add: window_def)
  from quiet_pass_flushes [OF run_q pend(2) len(2)] quiet bc
  have flush: "check_callback ?q = Inr ([(2, SendPrepared ''hi'')], ?i)" by auto
  note inst = quiet_pass_flushes [OF run_b pend(1) len(1), of "[AddSubscriber 3]" "[Publish 2 ''yo'']"]
  from inst busy have keep: "check_callback ?b = Inr ([], ?b)" by blast
  have "batched ?b \<noteq> 0 \<and> window [AddSubscriber 3] \<and> senders [AddSubscriber 3] = {}"
    using conns by simp
  with inst obtain plan r1 where r1: "run ?b [AddSubscriber 3] = Inr ([], r1)"
    and bc1: "broadcast r1 =
        Inr (plan, r1\<lparr>batched := 0, uniqueSenders := [], sharedMessage := []\<rparr>)"
    and pass1: "run ?b (PrepareCallback # [AddSubscriber 3] @ [CheckCallback]) =
        Inr (plan, r1\<lparr>gotPubsThisIteration := False, batched := 0,
                     uniqueSenders := [], sharedMessage := []\<rparr>)"
    by blast
  from r1 have "r1 = ?b3" by (simp add: addSubscriber_def)
  moreover have "broadcast ?b3 = Inr ([(2, SendPrepared ''hi''), (3, SendPrepared ''hi'')],
      ?b3\<lparr>batched := 0, uniqueSenders := [], sharedMessage := []\<rparr>)"
    by (simp add: broadcast_def uniqueMessage_def substr_def substr_from_def to_int_def
        int_plus_def is_int_def)
  ultimately have "plan = [(2, SendPrepared ''hi''), (3, SendPrepared ''hi'')]" using bc1 by simp
  with pass1 \<open>r1 = ?b3\<close>
  have pass: "run ?b (PrepareCallback # [AddSubscriber 3] @ [CheckCallback]) =
      Inr ([(2, SendPrepared ''hi''), (3, SendPrepared ''hi'')], ?i3)"
    by simp
  have pass_run: "run ?b [PrepareCallback, AddSubscriber 3, CheckCallback] =
      Inr ([(2, SendPrepared ''hi''), (3, SendPrepared ''hi'')], ?i3)"
    by (simp add: prepare_callback_def addSubscriber_def check_callback_def broadcast_def
        uniqueMessage_def substr_def substr_from_def to_int_def int_plus_def is_int_def)
  from inst pubs have "\<exists>r'. run ?b (PrepareCallback # [Publish 2 ''yo''] @ [CheckCallback]) = Inr ([], r')
      \<and> uniqueSenders r' \<noteq> [] \<and> (pending r' < 2 ^ 32 \<longrightarrow> batched r' \<noteq> 0)
      \<and> sharedMessage r' = sharedMessage ?b @ payloads [Publish 2 ''yo'']"
    by blast
  then have ext: "\<exists>r'. run ?b (PrepareCallback # [Publish 2 ''yo''] @ [CheckCallback]) = Inr ([], r')
      \<and> uniqueSenders r' \<noteq> []
      \<and> sharedMessage r' = ''hi'' @ payloads [Publish 2 ''yo'']"
    by auto
  from run_q have run_q': "run defaultRoom [AddSubscriber 1, AddSubscriber 2, Publish 1 ''hi'', CheckCallback, PrepareCallback] = Inr ([], ?q)"
    by simp
  from pass pass_run
  have pass': "run ?b (PrepareCallback # [AddSubscriber 3] @ [CheckCallback]) =
      Inr ([(2, SendPrepared ''hi''), (3, SendPrepared ''hi'')], ?i3)"
    by simp
  from run_q' flush run_b pend_b keep conns pass' pubs ext show ?thesis by (intro conjI)
qed

subsection \<open>The edge cases of the reconstruction\<close>





subsection \<open>No empty list of ranges\<close>

text \<open>
  C10. No run of \<open>addSubscriber\<close>, \<open>publish\<close>, \<open>broadcast\<close> and the two callbacks from
  the initial room reads a vector of ranges out of bounds, and every run of fewer than
  \<open>2^31\<close> publications that publishes fewer than \<open>2^31\<close> bytes in all succeeds. In every
  room that a run reaches every sender in \<open>uniqueSenders\<close> has at least one range. In
  every room with this property \<open>broadcast\<close> does not read a vector of ranges out of
  bounds.
\<close>

theorem gap_lists_never_empty:
  "run defaultRoom evs \<noteq> Inl OutOfBounds
   \<and> (length (payloads evs) < 2 ^ 31 \<and> publications evs < 2 ^ 31 \<longrightarrow>
         (\<exists>sends r. run defaultRoom evs = Inr (sends, r)))
   \<and> (run defaultRoom evs = Inr (sends, r) \<longrightarrow> gap_lists_non_empty r)
   \<and> (gap_lists_non_empty r0 \<longrightarrow> broadcast r0 \<noteq> Inl OutOfBounds)"
proof (intro conjI impI)
  from run_not_OutOfBounds [OF room_inv_defaultRoom]
  show "run defaultRoom evs \<noteq> Inl OutOfBounds" .
next
  assume "length (payloads evs) < 2 ^ 31 \<and> publications evs < 2 ^ 31"
  then show "\<exists>sends r. run defaultRoom evs = Inr (sends, r)"
    by (simp add: run_total_defaultRoom)
next
  assume "run defaultRoom evs = Inr (sends, r)"
  from room_inv_run [OF room_inv_defaultRoom this] have "room_inv r" .
  then show "gap_lists_non_empty r"
    by (auto simp: room_inv_def gaps_inv_def gap_lists_non_empty_def)
next
  assume "gap_lists_non_empty r0"
  then have "\<forall>(s, R) \<in> set (uniqueSenders r0). R \<noteq> []"
    by (simp add: gap_lists_non_empty_def)
  from uniqueMessages_not_OutOfBounds [OF this, of "sharedMessage r0" 0]
  show "broadcast r0 \<noteq> Inl OutOfBounds"
    by (auto simp: broadcast_def split: sum.splits)
qed

text \<open>A second window, after a broadcast, in which socket 2 publishes twice.\<close>

theorem gap_lists_never_empty_witness:
  "run defaultRoom [AddSubscriber 1, Publish 1 ''a'', Broadcast, Publish 2 ''b'', Publish 2 ''c''] =
     Inr ([], \<lparr>uniqueSenders = [(2, [\<lparr>start = 0, length_gap = 1\<rparr>, \<lparr>start = 1, length_gap = 1\<rparr>])],
               sharedMessage = ''bc'', sockets = [1], gotPubsThisIteration = True, batched = 2\<rparr>)
   \<and> length (payloads [AddSubscriber 1, Publish 1 ''a'', Broadcast, Publish 2 ''b'', Publish 2 ''c'']) = 3
   \<and> publications [AddSubscriber 1, Publish 1 ''a'', Broadcast, Publish 2 ''b'', Publish 2 ''c''] = 3
   \<and> gap_lists_non_empty
         \<lparr>uniqueSenders = [(2, [\<lparr>start = 0, length_gap = 1\<rparr>, \<lparr>start = 1, length_gap = 1\<rparr>])],
          sharedMessage = ''bc'', sockets = [1], gotPubsThisIteration = True, batched = 2\<rparr>
   \<and> broadcast
         \<lparr>uniqueSenders = [(2, [\<lparr>start = 0, length_gap = 1\<rparr>, \<lparr>start = 1, length_gap = 1\<rparr>])],
          sharedMessage = ''bc'', sockets = [1], gotPubsThisIteration = True, batched = 2\<rparr>
       \<noteq> Inl OutOfBounds"
proof -
  let ?evs = "[AddSubscriber 1, Publish 1 ''a'', Broadcast, Publish 2 ''b'', Publish 2 ''c'']"
  let ?r = "\<lparr>uniqueSenders = [(2, [\<lparr>start = 0, length_gap = 1\<rparr>, \<lparr>start = 1, length_gap = 1\<rparr>])],
             sharedMessage = ''bc'', sockets = [1], gotPubsThisIteration = True, batched = 2\<rparr>"
  note inst = gap_lists_never_empty [of ?evs "[]" ?r ?r]
  have len: "length (payloads ?evs) = 3" by simp
  have cnt: "publications ?evs = 3" by simp
  with inst len obtain sends r where run0: "run defaultRoom ?evs = Inr (sends, r)" by auto
  have "run defaultRoom ?evs = Inr ([], ?r)"
    by (simp add: defaultRoom_def addSubscriber_def publish_def broadcast_def
        uniqueMessage_def substr_def substr_from_def to_int_def int_plus_def is_int_def)
  with run0 have run: "run defaultRoom ?evs = Inr ([], ?r)" by simp
  from inst run have ne: "gap_lists_non_empty ?r" by blast
  with inst have "broadcast ?r \<noteq> Inl OutOfBounds" by blast
  with run len cnt ne show ?thesis by simp
qed

end
